theory Spec2Isabelle
  imports Main "HOL-Library.Word"
begin

unbundle bit_operations_syntax

section \<open>Go values: machine integers, errors, panics, the heap and the files\<close>

text \<open>
  The library is Go. \<open>uint64\<close> is a 64-bit word, \<open>byte\<close> an 8-bit word, and \<open>int\<close> is
  taken to be the 64-bit signed integer of the usual 64-bit platforms: \<open>int(x)\<close> of a
  \<open>uint64\<close> is \<open>sint x\<close>. A key is the byte sequence \<open>[]byte(entry)\<close> of the Go string.
\<close>

type_synonym uint64 = "64 word"
type_synonym byte = "8 word"

text \<open>
  The values built by \<open>errors.New\<close>, one constructor for each message of the source:
  "Filter size must be at least 64", "Shards must be nonzero", "Size must be a power of 2",
  "Shards must be a power of 2", "Shards cannot exceed size/64",
  "Size must be a multiple of shards", "Index can't be larger than filter size",
  "File bitvector size: %d. Specified size: %d. Mismatch." (with its two numbers), and
  the error of \<open>os.Open\<close> / \<open>os.OpenFile\<close>.
\<close>

datatype error =
    FilterSizeTooSmall
  | ShardsZero
  | SizeNotPowerOfTwo
  | ShardsNotPowerOfTwo
  | ShardsExceedSize
  | SizeNotMultipleOfShards
  | IndexTooLarge
  | SizeMismatch int uint64
  | IOError

text \<open>Run-time panics of Go: they are not returned errors, they unwind the caller.\<close>

datatype panic = IndexOutOfRange | DivideByZero | MakeSliceLen

datatype 'a outcome = Return 'a | Panics panic

text \<open>
  Every method of the source has a value receiver: the struct is copied at the call, and
  what the callee shares with its caller is the backing array of the slice \<open>bv\<close> (and the
  file system). A slice is therefore a reference into a heap of arrays; \<open>make\<close> takes the
  next free reference. The files are a map from names to contents; \<open>locked\<close> names the
  paths that \<open>os.OpenFile\<close> cannot open for writing.

  Every function below is one call run to its end with no other goroutine writing: it
  takes the world before the call and returns what the call returns (or the panic)
  together with the world it leaves.
\<close>

record 'a world =
  heap :: "nat \<Rightarrow> 'a list"
  next_ref :: nat
  files :: "string \<Rightarrow> byte list option"
  locked :: "string \<Rightarrow> bool"

definition alloc :: "'a list \<Rightarrow> 'a world \<Rightarrow> nat \<times> 'a world" where
  "alloc xs w = (next_ref w, w\<lparr>heap := (heap w)(next_ref w := xs), next_ref := Suc (next_ref w)\<rparr>)"

text \<open>
  \<open>make([]T, n)\<close> with \<open>n\<close> a \<open>uint64\<close>: a length that is not representable as an \<open>int\<close>
  panics ("makeslice: len out of range"); the elements are zero. How much memory the
  platform can give below that length is not modelled.
\<close>

definition make_slice :: "uint64 \<Rightarrow> 'a::zero world \<Rightarrow> nat outcome \<times> 'a world" where
  "make_slice n w =
     (if sint n < 0 then (Panics MakeSliceLen, w)
      else (let (r, w') = alloc (replicate (unat n) 0) w in (Return r, w')))"

section \<open>hashEntry (src/unnamed/part_002, first part)\<close>

text \<open>
  \<open>XXHN.Checksum64\<close> is the external 64-bit hash; it is the parameter \<open>H\<close> of everything
  below. The loop of \<open>hashEntry\<close> runs \<open>n\<close> times; \<open>pert\<close> is the same slice as \<open>entry\<close>,
  so the assignment to its last byte writes \<open>entry\<close>; the index \<open>len(pert)-1\<close> is \<open>-1\<close> for
  the empty key, which panics. \<open>make([]uint64, n)\<close> panics for a negative \<open>n\<close>.
\<close>

fun hashEntry_loop :: "(byte list \<Rightarrow> uint64) \<Rightarrow> nat \<Rightarrow> byte list \<Rightarrow> uint64 list \<Rightarrow> nat \<Rightarrow> uint64 list outcome" where
  "hashEntry_loop H 0 entry out i = Return out"
| "hashEntry_loop H (Suc m) entry out i =
     (if length entry = 0 then Panics IndexOutOfRange
      else (let pert = entry[length entry - 1 := (entry ! (length entry - 1)) AND 0xFF]
            in hashEntry_loop H m pert (out[i := H pert]) (Suc i)))"

definition hashEntry :: "(byte list \<Rightarrow> uint64) \<Rightarrow> byte list \<Rightarrow> int \<Rightarrow> uint64 list outcome" where
  "hashEntry H entry n =
     (if n < 0 then Panics MakeSliceLen
      else hashEntry_loop H (nat n) entry (replicate (nat n) 0) 0)"

section \<open>Persistence helpers\<close>

text \<open>
  \<open>fmt.Sprintf("%b", x)\<close> and \<open>fmt.Sprintf("%d", x)\<close>: the binary and the decimal digits
  of an unsigned number, most significant first, no padding, "0" for zero.
\<close>

fun fmt_b :: "nat \<Rightarrow> byte list" where
  "fmt_b n = (if n < 2 then [0x30 + of_nat n] else fmt_b (n div 2) @ [0x30 + of_nat (n mod 2)])"

fun fmt_d :: "nat \<Rightarrow> byte list" where
  "fmt_d n = (if n < 10 then [0x30 + of_nat n] else fmt_d (n div 10) @ [0x30 + of_nat (n mod 10)])"

declare fmt_b.simps [simp del] fmt_d.simps [simp del]

text \<open>
  \<open>bufio.Reader.ReadBytes(delim)\<close>: the bytes up to and including the first delimiter,
  or the whole input when it has none (the error is then \<open>io.EOF\<close>, which every caller
  in the source lets pass). Other read errors are not modelled.
\<close>

fun ReadBytes :: "byte list \<Rightarrow> byte \<Rightarrow> byte list" where
  "ReadBytes [] d = []"
| "ReadBytes (b # bs) d = (if b = d then [b] else b # ReadBytes bs d)"

section \<open>StripedBloomFilter (src/striped.go, first part)\<close>

text \<open>
  \<open>sbf_bv\<close> is the reference of the backing array, \<open>sbf_mutArr\<close> the length of the mutex
  slice (the constructor fills every entry). Without concurrent callers \<open>Lock\<close> and
  \<open>Unlock\<close> do nothing, but indexing the mutex slice can still panic.
\<close>

record StripedBloomFilter =
  sbf_bv :: nat
  sbf_size :: uint64
  sbf_shards :: uint64
  sbf_hf :: int
  sbf_mutArr :: nat
  sbf_shardLen :: uint64

definition NewStripedBloomFilter ::
  "uint64 \<Rightarrow> int \<Rightarrow> uint64 \<Rightarrow> uint64 world \<Rightarrow> (error + StripedBloomFilter) outcome \<times> uint64 world" where
  "NewStripedBloomFilter sz h sh w =
     (if sz < 64 then (Return (Inl FilterSizeTooSmall), w)
      else if sh = 0 then (Return (Inl ShardsZero), w)
      else if sz AND (sz - 1) \<noteq> 0 then (Return (Inl SizeNotPowerOfTwo), w)
      else if sh AND (sh - 1) \<noteq> 0 then (Return (Inl ShardsNotPowerOfTwo), w)
      else if sh > sz div 64 then (Return (Inl ShardsExceedSize), w)
      else if sz mod sh \<noteq> 0 then (Return (Inl SizeNotMultipleOfShards), w)
      else (case make_slice (sz div 64) w of
              (Panics p, w') \<Rightarrow> (Panics p, w')
            | (Return r, w') \<Rightarrow>
                (if sint sh < 0 then (Panics MakeSliceLen, w')
                 else (Return (Inr \<lparr>sbf_bv = r, sbf_size = sz, sbf_shards = sh, sbf_hf = h,
                                     sbf_mutArr = unat sh, sbf_shardLen = sz div sh\<rparr>), w'))))"

definition sbf_setBit :: "StripedBloomFilter \<Rightarrow> uint64 \<Rightarrow> uint64 world \<Rightarrow> error option outcome \<times> uint64 world" where
  "sbf_setBit bf idx w =
     (if idx > sbf_size bf - 1 then (Return (Some IndexTooLarge), w)
      else if sbf_shardLen bf = 0 then (Panics DivideByZero, w)
      else (let shardID = idx div sbf_shardLen bf; intID = idx div 64; bitID = idx AND 63 in
        if \<not> unat shardID < sbf_mutArr bf then (Panics IndexOutOfRange, w)
        else if \<not> unat intID < length (heap w (sbf_bv bf)) then (Panics IndexOutOfRange, w)
        else (Return None,
              w\<lparr>heap := (heap w)(sbf_bv bf :=
                   (heap w (sbf_bv bf))[unat intID :=
                      (heap w (sbf_bv bf) ! unat intID) OR push_bit (unat bitID) 1])\<rparr>)))"

definition sbf_setBitAsync :: "StripedBloomFilter \<Rightarrow> uint64 \<Rightarrow> uint64 world \<Rightarrow> error option outcome \<times> uint64 world" where
  "sbf_setBitAsync bf idx w =
     (if idx > sbf_size bf - 1 then (Return (Some IndexTooLarge), w)
      else (let intID = idx div 64; bitID = idx AND 63 in
        if \<not> unat intID < length (heap w (sbf_bv bf)) then (Panics IndexOutOfRange, w)
        else (Return None,
              w\<lparr>heap := (heap w)(sbf_bv bf :=
                   (heap w (sbf_bv bf))[unat intID :=
                      (heap w (sbf_bv bf) ! unat intID) OR push_bit (unat bitID) 1])\<rparr>)))"

definition sbf_getBit :: "StripedBloomFilter \<Rightarrow> uint64 \<Rightarrow> uint64 world \<Rightarrow> (bool \<times> error option) outcome \<times> uint64 world" where
  "sbf_getBit bf idx w =
     (if idx > sbf_size bf - 1 then (Return (False, Some IndexTooLarge), w)
      else if sbf_shardLen bf = 0 then (Panics DivideByZero, w)
      else (let shardID = idx div sbf_shardLen bf; intID = idx div 64; bitID = idx AND 63 in
        if \<not> unat shardID < sbf_mutArr bf then (Panics IndexOutOfRange, w)
        else if \<not> unat intID < length (heap w (sbf_bv bf)) then (Panics IndexOutOfRange, w)
        else (Return (\<not> ((heap w (sbf_bv bf) ! unat intID) AND push_bit (unat bitID) 1 = 0), None), w)))"

definition sbf_getBitAsync :: "StripedBloomFilter \<Rightarrow> uint64 \<Rightarrow> uint64 world \<Rightarrow> (bool \<times> error option) outcome \<times> uint64 world" where
  "sbf_getBitAsync bf idx w =
     (if idx > sbf_size bf - 1 then (Return (False, Some IndexTooLarge), w)
      else (let intID = idx div 64; bitID = idx AND 63 in
        if \<not> unat intID < length (heap w (sbf_bv bf)) then (Panics IndexOutOfRange, w)
        else (Return (\<not> ((heap w (sbf_bv bf) ! unat intID) AND push_bit (unat bitID) 1 = 0), None), w)))"

text \<open>
  The loops of Lookup and Insert run over \<open>i < bf.hf\<close> and read \<open>hashes[i]\<close>; \<open>hashes\<close> has
  exactly \<open>bf.hf\<close> elements, so they are recursions over the list of hashes. A Lookup that
  reads an unset position returns \<open>false\<close> with the error of the read, which is \<open>nil\<close>
  unless the read failed.
\<close>

fun sbf_Lookup_loop :: "StripedBloomFilter \<Rightarrow> uint64 list \<Rightarrow> uint64 world \<Rightarrow> (bool \<times> error option) outcome \<times> uint64 world" where
  "sbf_Lookup_loop bf [] w = (Return (True, None), w)"
| "sbf_Lookup_loop bf (h # hs) w =
     (case sbf_getBit bf (h AND (sbf_size bf - 1)) w of
        (Panics p, w') \<Rightarrow> (Panics p, w')
      | (Return (exists, err), w') \<Rightarrow>
          (if \<not> exists then (Return (False, err), w') else sbf_Lookup_loop bf hs w'))"

definition sbf_Lookup :: "(byte list \<Rightarrow> uint64) \<Rightarrow> StripedBloomFilter \<Rightarrow> byte list \<Rightarrow> uint64 world \<Rightarrow> (bool \<times> error option) outcome \<times> uint64 world" where
  "sbf_Lookup H bf entry w =
     (case hashEntry H entry (sbf_hf bf) of
        Panics p \<Rightarrow> (Panics p, w)
      | Return hashes \<Rightarrow> sbf_Lookup_loop bf hashes w)"

fun sbf_LookupAsync_loop :: "StripedBloomFilter \<Rightarrow> uint64 list \<Rightarrow> uint64 world \<Rightarrow> (bool \<times> error option) outcome \<times> uint64 world" where
  "sbf_LookupAsync_loop bf [] w = (Return (True, None), w)"
| "sbf_LookupAsync_loop bf (h # hs) w =
     (case sbf_getBitAsync bf (h AND (sbf_size bf - 1)) w of
        (Panics p, w') \<Rightarrow> (Panics p, w')
      | (Return (exists, err), w') \<Rightarrow>
          (if \<not> exists then (Return (False, err), w') else sbf_LookupAsync_loop bf hs w'))"

definition sbf_LookupAsync :: "(byte list \<Rightarrow> uint64) \<Rightarrow> StripedBloomFilter \<Rightarrow> byte list \<Rightarrow> uint64 world \<Rightarrow> (bool \<times> error option) outcome \<times> uint64 world" where
  "sbf_LookupAsync H bf entry w =
     (case hashEntry H entry (sbf_hf bf) of
        Panics p \<Rightarrow> (Panics p, w)
      | Return hashes \<Rightarrow> sbf_LookupAsync_loop bf hashes w)"

fun sbf_Insert_loop :: "StripedBloomFilter \<Rightarrow> uint64 list \<Rightarrow> uint64 world \<Rightarrow> error option outcome \<times> uint64 world" where
  "sbf_Insert_loop bf [] w = (Return None, w)"
| "sbf_Insert_loop bf (h # hs) w =
     (case sbf_setBit bf (h AND (sbf_size bf - 1)) w of
        (Panics p, w') \<Rightarrow> (Panics p, w')
      | (Return (Some e), w') \<Rightarrow> (Return (Some e), w')
      | (Return None, w') \<Rightarrow> sbf_Insert_loop bf hs w')"

definition sbf_Insert :: "(byte list \<Rightarrow> uint64) \<Rightarrow> StripedBloomFilter \<Rightarrow> byte list \<Rightarrow> uint64 world \<Rightarrow> error option outcome \<times> uint64 world" where
  "sbf_Insert H bf entry w =
     (case hashEntry H entry (sbf_hf bf) of
        Panics p \<Rightarrow> (Panics p, w)
      | Return hashes \<Rightarrow> sbf_Insert_loop bf hashes w)"

fun sbf_InsertAsync_loop :: "StripedBloomFilter \<Rightarrow> uint64 list \<Rightarrow> uint64 world \<Rightarrow> error option outcome \<times> uint64 world" where
  "sbf_InsertAsync_loop bf [] w = (Return None, w)"
| "sbf_InsertAsync_loop bf (h # hs) w =
     (case sbf_setBitAsync bf (h AND (sbf_size bf - 1)) w of
        (Panics p, w') \<Rightarrow> (Panics p, w')
      | (Return (Some e), w') \<Rightarrow> (Return (Some e), w')
      | (Return None, w') \<Rightarrow> sbf_InsertAsync_loop bf hs w')"

definition sbf_InsertAsync :: "(byte list \<Rightarrow> uint64) \<Rightarrow> StripedBloomFilter \<Rightarrow> byte list \<Rightarrow> uint64 world \<Rightarrow> error option outcome \<times> uint64 world" where
  "sbf_InsertAsync H bf entry w =
     (case hashEntry H entry (sbf_hf bf) of
        Panics p \<Rightarrow> (Panics p, w)
      | Return hashes \<Rightarrow> sbf_InsertAsync_loop bf hashes w)"

text \<open>
  Write opens the file (created or truncated), then runs \<open>i\<close> from \<open>0\<close> while
  \<open>i < int(bf.size)\<close>, appending the binary digits of \<open>bf.bv[i]\<close>; the second argument of
  the loop is the number of iterations left. The bytes reach the file after the loop.
\<close>

fun packed_Write_loop :: "uint64 list \<Rightarrow> nat \<Rightarrow> nat \<Rightarrow> byte list \<Rightarrow> byte list outcome" where
  "packed_Write_loop bv 0 i b = Return b"
| "packed_Write_loop bv (Suc m) i b =
     (if i < length bv then packed_Write_loop bv m (Suc i) (b @ fmt_b (unat (bv ! i)))
      else Panics IndexOutOfRange)"

definition sbf_Write :: "StripedBloomFilter \<Rightarrow> string \<Rightarrow> uint64 world \<Rightarrow> error option outcome \<times> uint64 world" where
  "sbf_Write bf filename w =
     (if locked w filename then (Return (Some IOError), w)
      else (let w1 = w\<lparr>files := (files w)(filename \<mapsto> [])\<rparr> in
        case packed_Write_loop (heap w1 (sbf_bv bf)) (nat (sint (sbf_size bf))) 0 [] of
          Panics p \<Rightarrow> (Panics p, w1)
        | Return b \<Rightarrow> (Return None, w1\<lparr>files := (files w1)(filename \<mapsto> b)\<rparr>)))"

text \<open>
  Load reads the first line of the file and calls \<open>setBit(uint64(i))\<close> for every byte
  that is not zero, dropping the error \<open>setBit\<close> returns. In StripedBloomFilter the
  receiver's own copy gets a new size and a new array before the loop, and there is no
  comparison of sizes.
\<close>

fun sbf_Load_loop :: "StripedBloomFilter \<Rightarrow> byte list \<Rightarrow> nat \<Rightarrow> uint64 world \<Rightarrow> error option outcome \<times> uint64 world" where
  "sbf_Load_loop bf [] i w = (Return None, w)"
| "sbf_Load_loop bf (b # bs) i w =
     (if b > 0 then
        (case sbf_setBit bf (of_nat i) w of
           (Panics p, w') \<Rightarrow> (Panics p, w')
         | (Return e, w') \<Rightarrow> sbf_Load_loop bf bs (Suc i) w')
      else sbf_Load_loop bf bs (Suc i) w)"

definition sbf_Load :: "StripedBloomFilter \<Rightarrow> string \<Rightarrow> uint64 world \<Rightarrow> error option outcome \<times> uint64 world" where
  "sbf_Load bf filename w =
     (case files w filename of
        None \<Rightarrow> (Return (Some IOError), w)
      | Some content \<Rightarrow>
          (let bv = ReadBytes content 0x0A;
               bf1 = bf\<lparr>sbf_size := word_of_int (int (length bv) - 1)\<rparr> in
           case make_slice (sbf_size bf1 - 1) w of
             (Panics p, w1) \<Rightarrow> (Panics p, w1)
           | (Return r, w1) \<Rightarrow> sbf_Load_loop (bf1\<lparr>sbf_bv := r\<rparr>) bv 0 w1))"

section \<open>BloomFilter (src/striped.go, second part)\<close>

record BloomFilter =
  bf_bv :: nat
  bf_size :: uint64
  bf_hf :: int

definition NewBloomFilter ::
  "uint64 \<Rightarrow> int \<Rightarrow> uint64 world \<Rightarrow> (error + BloomFilter) outcome \<times> uint64 world" where
  "NewBloomFilter sz h w =
     (if sz < 64 then (Return (Inl FilterSizeTooSmall), w)
      else if sz AND (sz - 1) \<noteq> 0 then (Return (Inl SizeNotPowerOfTwo), w)
      else (case make_slice (sz div 64) w of
              (Panics p, w') \<Rightarrow> (Panics p, w')
            | (Return r, w') \<Rightarrow> (Return (Inr \<lparr>bf_bv = r, bf_size = sz, bf_hf = h\<rparr>), w')))"

definition bf_setBit :: "BloomFilter \<Rightarrow> uint64 \<Rightarrow> uint64 world \<Rightarrow> error option outcome \<times> uint64 world" where
  "bf_setBit bf idx w =
     (if idx > bf_size bf - 1 then (Return (Some IndexTooLarge), w)
      else (let intID = idx div 64; bitID = idx AND 63 in
        if \<not> unat intID < length (heap w (bf_bv bf)) then (Panics IndexOutOfRange, w)
        else (Return None,
              w\<lparr>heap := (heap w)(bf_bv bf :=
                   (heap w (bf_bv bf))[unat intID :=
                      (heap w (bf_bv bf) ! unat intID) OR push_bit (unat bitID) 1])\<rparr>)))"

definition bf_setBitAsync :: "BloomFilter \<Rightarrow> uint64 \<Rightarrow> uint64 world \<Rightarrow> error option outcome \<times> uint64 world" where
  "bf_setBitAsync bf idx w =
     (if idx > bf_size bf - 1 then (Return (Some IndexTooLarge), w)
      else (let intID = idx div 64; bitID = idx AND 63 in
        if \<not> unat intID < length (heap w (bf_bv bf)) then (Panics IndexOutOfRange, w)
        else (Return None,
              w\<lparr>heap := (heap w)(bf_bv bf :=
                   (heap w (bf_bv bf))[unat intID :=
                      (heap w (bf_bv bf) ! unat intID) OR push_bit (unat bitID) 1])\<rparr>)))"

definition bf_getBit :: "BloomFilter \<Rightarrow> uint64 \<Rightarrow> uint64 world \<Rightarrow> (bool \<times> error option) outcome \<times> uint64 world" where
  "bf_getBit bf idx w =
     (if idx > bf_size bf - 1 then (Return (False, Some IndexTooLarge), w)
      else (let intID = idx div 64; bitID = idx AND 63 in
        if \<not> unat intID < length (heap w (bf_bv bf)) then (Panics IndexOutOfRange, w)
        else (Return (\<not> ((heap w (bf_bv bf) ! unat intID) AND push_bit (unat bitID) 1 = 0), None), w)))"

definition bf_getBitAsync :: "BloomFilter \<Rightarrow> uint64 \<Rightarrow> uint64 world \<Rightarrow> (bool \<times> error option) outcome \<times> uint64 world" where
  "bf_getBitAsync bf idx w =
     (if idx > bf_size bf - 1 then (Return (False, Some IndexTooLarge), w)
      else (let intID = idx div 64; bitID = idx AND 63 in
        if \<not> unat intID < length (heap w (bf_bv bf)) then (Panics IndexOutOfRange, w)
        else (Return (\<not> ((heap w (bf_bv bf) ! unat intID) AND push_bit (unat bitID) 1 = 0), None), w)))"

fun bf_Lookup_loop :: "BloomFilter \<Rightarrow> uint64 list \<Rightarrow> uint64 world \<Rightarrow> (bool \<times> error option) outcome \<times> uint64 world" where
  "bf_Lookup_loop bf [] w = (Return (True, None), w)"
| "bf_Lookup_loop bf (h # hs) w =
     (case bf_getBit bf (h AND (bf_size bf - 1)) w of
        (Panics p, w') \<Rightarrow> (Panics p, w')
      | (Return (exists, err), w') \<Rightarrow>
          (if \<not> exists then (Return (False, err), w') else bf_Lookup_loop bf hs w'))"

definition bf_Lookup :: "(byte list \<Rightarrow> uint64) \<Rightarrow> BloomFilter \<Rightarrow> byte list \<Rightarrow> uint64 world \<Rightarrow> (bool \<times> error option) outcome \<times> uint64 world" where
  "bf_Lookup H bf entry w =
     (case hashEntry H entry (bf_hf bf) of
        Panics p \<Rightarrow> (Panics p, w)
      | Return hashes \<Rightarrow> bf_Lookup_loop bf hashes w)"

fun bf_LookupAsync_loop :: "BloomFilter \<Rightarrow> uint64 list \<Rightarrow> uint64 world \<Rightarrow> (bool \<times> error option) outcome \<times> uint64 world" where
  "bf_LookupAsync_loop bf [] w = (Return (True, None), w)"
| "bf_LookupAsync_loop bf (h # hs) w =
     (case bf_getBitAsync bf (h AND (bf_size bf - 1)) w of
        (Panics p, w') \<Rightarrow> (Panics p, w')
      | (Return (exists, err), w') \<Rightarrow>
          (if \<not> exists then (Return (False, err), w') else bf_LookupAsync_loop bf hs w'))"

definition bf_LookupAsync :: "(byte list \<Rightarrow> uint64) \<Rightarrow> BloomFilter \<Rightarrow> byte list \<Rightarrow> uint64 world \<Rightarrow> (bool \<times> error option) outcome \<times> uint64 world" where
  "bf_LookupAsync H bf entry w =
     (case hashEntry H entry (bf_hf bf) of
        Panics p \<Rightarrow> (Panics p, w)
      | Return hashes \<Rightarrow> bf_LookupAsync_loop bf hashes w)"

fun bf_Insert_loop :: "BloomFilter \<Rightarrow> uint64 list \<Rightarrow> uint64 world \<Rightarrow> error option outcome \<times> uint64 world" where
  "bf_Insert_loop bf [] w = (Return None, w)"
| "bf_Insert_loop bf (h # hs) w =
     (case bf_setBit bf (h AND (bf_size bf - 1)) w of
        (Panics p, w') \<Rightarrow> (Panics p, w')
      | (Return (Some e), w') \<Rightarrow> (Return (Some e), w')
      | (Return None, w') \<Rightarrow> bf_Insert_loop bf hs w')"

definition bf_Insert :: "(byte list \<Rightarrow> uint64) \<Rightarrow> BloomFilter \<Rightarrow> byte list \<Rightarrow> uint64 world \<Rightarrow> error option outcome \<times> uint64 world" where
  "bf_Insert H bf entry w =
     (case hashEntry H entry (bf_hf bf) of
        Panics p \<Rightarrow> (Panics p, w)
      | Return hashes \<Rightarrow> bf_Insert_loop bf hashes w)"

fun bf_InsertAsync_loop :: "BloomFilter \<Rightarrow> uint64 list \<Rightarrow> uint64 world \<Rightarrow> error option outcome \<times> uint64 world" where
  "bf_InsertAsync_loop bf [] w = (Return None, w)"
| "bf_InsertAsync_loop bf (h # hs) w =
     (case bf_setBitAsync bf (h AND (bf_size bf - 1)) w of
        (Panics p, w') \<Rightarrow> (Panics p, w')
      | (Return (Some e), w') \<Rightarrow> (Return (Some e), w')
      | (Return None, w') \<Rightarrow> bf_InsertAsync_loop bf hs w')"

definition bf_InsertAsync :: "(byte list \<Rightarrow> uint64) \<Rightarrow> BloomFilter \<Rightarrow> byte list \<Rightarrow> uint64 world \<Rightarrow> error option outcome \<times> uint64 world" where
  "bf_InsertAsync H bf entry w =
     (case hashEntry H entry (bf_hf bf) of
        Panics p \<Rightarrow> (Panics p, w)
      | Return hashes \<Rightarrow> bf_InsertAsync_loop bf hashes w)"

definition bf_Write :: "BloomFilter \<Rightarrow> string \<Rightarrow> uint64 world \<Rightarrow> error option outcome \<times> uint64 world" where
  "bf_Write bf filename w =
     (if locked w filename then (Return (Some IOError), w)
      else (let w1 = w\<lparr>files := (files w)(filename \<mapsto> [])\<rparr> in
        case packed_Write_loop (heap w1 (bf_bv bf)) (nat (sint (bf_size bf))) 0 [] of
          Panics p \<Rightarrow> (Panics p, w1)
        | Return b \<Rightarrow> (Return None, w1\<lparr>files := (files w1)(filename \<mapsto> b)\<rparr>)))"

fun bf_Load_loop :: "BloomFilter \<Rightarrow> byte list \<Rightarrow> nat \<Rightarrow> uint64 world \<Rightarrow> error option outcome \<times> uint64 world" where
  "bf_Load_loop bf [] i w = (Return None, w)"
| "bf_Load_loop bf (b # bs) i w =
     (if b > 0 then
        (case bf_setBit bf (of_nat i) w of
           (Panics p, w') \<Rightarrow> (Panics p, w')
         | (Return e, w') \<Rightarrow> bf_Load_loop bf bs (Suc i) w')
      else bf_Load_loop bf bs (Suc i) w)"

definition bf_Load :: "BloomFilter \<Rightarrow> string \<Rightarrow> uint64 world \<Rightarrow> error option outcome \<times> uint64 world" where
  "bf_Load bf filename w =
     (case files w filename of
        None \<Rightarrow> (Return (Some IOError), w)
      | Some content \<Rightarrow>
          (let bv = ReadBytes content 0x0A in
           if bf_size bf \<noteq> word_of_int (int (length bv) - 1)
           then (Return (Some (SizeMismatch (int (length bv) - 1) (bf_size bf))), w)
           else bf_Load_loop bf bv 0 w))"

section \<open>NaiveStripedBloomFilter (src/unnamed/part_000): one byte for each position, shard locks\<close>

record NaiveStripedBloomFilter =
  nsbf_bv :: nat
  nsbf_size :: uint64
  nsbf_shards :: uint64
  nsbf_hf :: int
  nsbf_mutArr :: nat
  nsbf_shardLen :: uint64

text \<open>
  This constructor has no "Shards must be nonzero" branch: with \<open>shards = 0\<close> the checks
  before it pass and \<open>bf.size%bf.shards\<close> divides by zero.
\<close>

definition NewNaiveStripedBloomFilter ::
  "uint64 \<Rightarrow> int \<Rightarrow> uint64 \<Rightarrow> byte world \<Rightarrow> (error + NaiveStripedBloomFilter) outcome \<times> byte world" where
  "NewNaiveStripedBloomFilter sz h sh w =
     (if sz < 64 then (Return (Inl FilterSizeTooSmall), w)
      else if sz AND (sz - 1) \<noteq> 0 then (Return (Inl SizeNotPowerOfTwo), w)
      else if sh AND (sh - 1) \<noteq> 0 then (Return (Inl ShardsNotPowerOfTwo), w)
      else if sh > sz div 64 then (Return (Inl ShardsExceedSize), w)
      else if sh = 0 then (Panics DivideByZero, w)
      else if sz mod sh \<noteq> 0 then (Return (Inl SizeNotMultipleOfShards), w)
      else (case make_slice sz w of
              (Panics p, w') \<Rightarrow> (Panics p, w')
            | (Return r, w') \<Rightarrow>
                (if sint sh < 0 then (Panics MakeSliceLen, w')
                 else (Return (Inr \<lparr>nsbf_bv = r, nsbf_size = sz, nsbf_shards = sh, nsbf_hf = h,
                                     nsbf_mutArr = unat sh, nsbf_shardLen = sz div sh\<rparr>), w'))))"

definition nsbf_setByte :: "NaiveStripedBloomFilter \<Rightarrow> uint64 \<Rightarrow> byte world \<Rightarrow> error option outcome \<times> byte world" where
  "nsbf_setByte bf idx w =
     (if idx > nsbf_size bf - 1 then (Return (Some IndexTooLarge), w)
      else if nsbf_shardLen bf = 0 then (Panics DivideByZero, w)
      else (let shardID = idx div nsbf_shardLen bf in
        if \<not> unat shardID < nsbf_mutArr bf then (Panics IndexOutOfRange, w)
        else if \<not> unat idx < length (heap w (nsbf_bv bf)) then (Panics IndexOutOfRange, w)
        else (Return None,
              w\<lparr>heap := (heap w)(nsbf_bv bf := (heap w (nsbf_bv bf))[unat idx := 1])\<rparr>)))"

definition nsbf_setByteAsync :: "NaiveStripedBloomFilter \<Rightarrow> uint64 \<Rightarrow> byte world \<Rightarrow> error option outcome \<times> byte world" where
  "nsbf_setByteAsync bf idx w =
     (if idx > nsbf_size bf - 1 then (Return (Some IndexTooLarge), w)
      else if \<not> unat idx < length (heap w (nsbf_bv bf)) then (Panics IndexOutOfRange, w)
      else (Return None,
            w\<lparr>heap := (heap w)(nsbf_bv bf := (heap w (nsbf_bv bf))[unat idx := 1])\<rparr>))"

definition nsbf_getByte :: "NaiveStripedBloomFilter \<Rightarrow> uint64 \<Rightarrow> byte world \<Rightarrow> (bool \<times> error option) outcome \<times> byte world" where
  "nsbf_getByte bf idx w =
     (if idx > nsbf_size bf - 1 then (Return (False, Some IndexTooLarge), w)
      else if nsbf_shardLen bf = 0 then (Panics DivideByZero, w)
      else (let shardID = idx div nsbf_shardLen bf in
        if \<not> unat shardID < nsbf_mutArr bf then (Panics IndexOutOfRange, w)
        else if \<not> unat idx < length (heap w (nsbf_bv bf)) then (Panics IndexOutOfRange, w)
        else (Return (heap w (nsbf_bv bf) ! unat idx = 1, None), w)))"

definition nsbf_getByteAsync :: "NaiveStripedBloomFilter \<Rightarrow> uint64 \<Rightarrow> byte world \<Rightarrow> (bool \<times> error option) outcome \<times> byte world" where
  "nsbf_getByteAsync bf idx w =
     (if idx > nsbf_size bf - 1 then (Return (False, Some IndexTooLarge), w)
      else if \<not> unat idx < length (heap w (nsbf_bv bf)) then (Panics IndexOutOfRange, w)
      else (Return (heap w (nsbf_bv bf) ! unat idx = 1, None), w))"

fun nsbf_Lookup_loop :: "NaiveStripedBloomFilter \<Rightarrow> uint64 list \<Rightarrow> byte world \<Rightarrow> (bool \<times> error option) outcome \<times> byte world" where
  "nsbf_Lookup_loop bf [] w = (Return (True, None), w)"
| "nsbf_Lookup_loop bf (h # hs) w =
     (case nsbf_getByte bf (h AND (nsbf_size bf - 1)) w of
        (Panics p, w') \<Rightarrow> (Panics p, w')
      | (Return (exists, err), w') \<Rightarrow>
          (if \<not> exists then (Return (False, err), w') else nsbf_Lookup_loop bf hs w'))"

definition nsbf_Lookup :: "(byte list \<Rightarrow> uint64) \<Rightarrow> NaiveStripedBloomFilter \<Rightarrow> byte list \<Rightarrow> byte world \<Rightarrow> (bool \<times> error option) outcome \<times> byte world" where
  "nsbf_Lookup H bf entry w =
     (case hashEntry H entry (nsbf_hf bf) of
        Panics p \<Rightarrow> (Panics p, w)
      | Return hashes \<Rightarrow> nsbf_Lookup_loop bf hashes w)"

fun nsbf_LookupAsync_loop :: "NaiveStripedBloomFilter \<Rightarrow> uint64 list \<Rightarrow> byte world \<Rightarrow> (bool \<times> error option) outcome \<times> byte world" where
  "nsbf_LookupAsync_loop bf [] w = (Return (True, None), w)"
| "nsbf_LookupAsync_loop bf (h # hs) w =
     (case nsbf_getByteAsync bf (h AND (nsbf_size bf - 1)) w of
        (Panics p, w') \<Rightarrow> (Panics p, w')
      | (Return (exists, err), w') \<Rightarrow>
          (if \<not> exists then (Return (False, err), w') else nsbf_LookupAsync_loop bf hs w'))"

definition nsbf_LookupAsync :: "(byte list \<Rightarrow> uint64) \<Rightarrow> NaiveStripedBloomFilter \<Rightarrow> byte list \<Rightarrow> byte world \<Rightarrow> (bool \<times> error option) outcome \<times> byte world" where
  "nsbf_LookupAsync H bf entry w =
     (case hashEntry H entry (nsbf_hf bf) of
        Panics p \<Rightarrow> (Panics p, w)
      | Return hashes \<Rightarrow> nsbf_LookupAsync_loop bf hashes w)"

fun nsbf_Insert_loop :: "NaiveStripedBloomFilter \<Rightarrow> uint64 list \<Rightarrow> byte world \<Rightarrow> error option outcome \<times> byte world" where
  "nsbf_Insert_loop bf [] w = (Return None, w)"
| "nsbf_Insert_loop bf (h # hs) w =
     (case nsbf_setByte bf (h AND (nsbf_size bf - 1)) w of
        (Panics p, w') \<Rightarrow> (Panics p, w')
      | (Return (Some e), w') \<Rightarrow> (Return (Some e), w')
      | (Return None, w') \<Rightarrow> nsbf_Insert_loop bf hs w')"

definition nsbf_Insert :: "(byte list \<Rightarrow> uint64) \<Rightarrow> NaiveStripedBloomFilter \<Rightarrow> byte list \<Rightarrow> byte world \<Rightarrow> error option outcome \<times> byte world" where
  "nsbf_Insert H bf entry w =
     (case hashEntry H entry (nsbf_hf bf) of
        Panics p \<Rightarrow> (Panics p, w)
      | Return hashes \<Rightarrow> nsbf_Insert_loop bf hashes w)"

fun nsbf_InsertAsync_loop :: "NaiveStripedBloomFilter \<Rightarrow> uint64 list \<Rightarrow> byte world \<Rightarrow> error option outcome \<times> byte world" where
  "nsbf_InsertAsync_loop bf [] w = (Return None, w)"
| "nsbf_InsertAsync_loop bf (h # hs) w =
     (case nsbf_setByteAsync bf (h AND (nsbf_size bf - 1)) w of
        (Panics p, w') \<Rightarrow> (Panics p, w')
      | (Return (Some e), w') \<Rightarrow> (Return (Some e), w')
      | (Return None, w') \<Rightarrow> nsbf_InsertAsync_loop bf hs w')"

definition nsbf_InsertAsync :: "(byte list \<Rightarrow> uint64) \<Rightarrow> NaiveStripedBloomFilter \<Rightarrow> byte list \<Rightarrow> byte world \<Rightarrow> error option outcome \<times> byte world" where
  "nsbf_InsertAsync H bf entry w =
     (case hashEntry H entry (nsbf_hf bf) of
        Panics p \<Rightarrow> (Panics p, w)
      | Return hashes \<Rightarrow> nsbf_InsertAsync_loop bf hashes w)"

text \<open>The byte-per-position filters write the decimal digits of every byte, \<open>bf.size\<close> times.\<close>

fun naive_Write_loop :: "byte list \<Rightarrow> nat \<Rightarrow> nat \<Rightarrow> byte list \<Rightarrow> byte list outcome" where
  "naive_Write_loop bv 0 i b = Return b"
| "naive_Write_loop bv (Suc m) i b =
     (if i < length bv then naive_Write_loop bv m (Suc i) (b @ fmt_d (unat (bv ! i)))
      else Panics IndexOutOfRange)"

definition nsbf_Write :: "NaiveStripedBloomFilter \<Rightarrow> string \<Rightarrow> byte world \<Rightarrow> error option outcome \<times> byte world" where
  "nsbf_Write bf filename w =
     (if locked w filename then (Return (Some IOError), w)
      else (let w1 = w\<lparr>files := (files w)(filename \<mapsto> [])\<rparr> in
        case naive_Write_loop (heap w1 (nsbf_bv bf)) (nat (sint (nsbf_size bf))) 0 [] of
          Panics p \<Rightarrow> (Panics p, w1)
        | Return b \<Rightarrow> (Return None, w1\<lparr>files := (files w1)(filename \<mapsto> b)\<rparr>)))"

fun nsbf_Load_loop :: "NaiveStripedBloomFilter \<Rightarrow> byte list \<Rightarrow> nat \<Rightarrow> byte world \<Rightarrow> error option outcome \<times> byte world" where
  "nsbf_Load_loop bf [] i w = (Return None, w)"
| "nsbf_Load_loop bf (b # bs) i w =
     (if b > 0 then
        (case nsbf_setByte bf (of_nat i) w of
           (Panics p, w') \<Rightarrow> (Panics p, w')
         | (Return e, w') \<Rightarrow> nsbf_Load_loop bf bs (Suc i) w')
      else nsbf_Load_loop bf bs (Suc i) w)"

definition nsbf_Load :: "NaiveStripedBloomFilter \<Rightarrow> string \<Rightarrow> byte world \<Rightarrow> error option outcome \<times> byte world" where
  "nsbf_Load bf filename w =
     (case files w filename of
        None \<Rightarrow> (Return (Some IOError), w)
      | Some content \<Rightarrow>
          (let bv = ReadBytes content 0x0A in
           if nsbf_size bf \<noteq> word_of_int (int (length bv) - 1)
           then (Return (Some (SizeMismatch (int (length bv) - 1) (nsbf_size bf))), w)
           else nsbf_Load_loop bf bv 0 w))"

section \<open>NaiveBloomFilter (src/unnamed/part_002, second part): one byte for each position, one lock\<close>

record NaiveBloomFilter =
  nbf_bv :: nat
  nbf_size :: uint64
  nbf_hf :: int

definition NewNaiveBloomFilter ::
  "uint64 \<Rightarrow> int \<Rightarrow> byte world \<Rightarrow> (error + NaiveBloomFilter) outcome \<times> byte world" where
  "NewNaiveBloomFilter sz h w =
     (if sz < 64 then (Return (Inl FilterSizeTooSmall), w)
      else if sz AND (sz - 1) \<noteq> 0 then (Return (Inl SizeNotPowerOfTwo), w)
      else (case make_slice sz w of
              (Panics p, w') \<Rightarrow> (Panics p, w')
            | (Return r, w') \<Rightarrow> (Return (Inr \<lparr>nbf_bv = r, nbf_size = sz, nbf_hf = h\<rparr>), w')))"

text \<open>
  The two setters test \<open>int(idx) >= len(bf.bv)\<close>, a signed comparison; the two getters
  test \<open>idx >= bf.size\<close>. The index expression \<open>bf.bv[idx]\<close> is checked against the
  length as an unsigned number.
\<close>

definition nbf_setByte :: "NaiveBloomFilter \<Rightarrow> uint64 \<Rightarrow> byte world \<Rightarrow> error option outcome \<times> byte world" where
  "nbf_setByte bf idx w =
     (if sint idx \<ge> int (length (heap w (nbf_bv bf))) then (Return (Some IndexTooLarge), w)
      else if \<not> unat idx < length (heap w (nbf_bv bf)) then (Panics IndexOutOfRange, w)
      else (Return None,
            w\<lparr>heap := (heap w)(nbf_bv bf := (heap w (nbf_bv bf))[unat idx := 1])\<rparr>))"

definition nbf_setByteAsync :: "NaiveBloomFilter \<Rightarrow> uint64 \<Rightarrow> byte world \<Rightarrow> error option outcome \<times> byte world" where
  "nbf_setByteAsync bf idx w =
     (if sint idx \<ge> int (length (heap w (nbf_bv bf))) then (Return (Some IndexTooLarge), w)
      else if \<not> unat idx < length (heap w (nbf_bv bf)) then (Panics IndexOutOfRange, w)
      else (Return None,
            w\<lparr>heap := (heap w)(nbf_bv bf := (heap w (nbf_bv bf))[unat idx := 1])\<rparr>))"

definition nbf_getByte :: "NaiveBloomFilter \<Rightarrow> uint64 \<Rightarrow> byte world \<Rightarrow> (bool \<times> error option) outcome \<times> byte world" where
  "nbf_getByte bf idx w =
     (if idx \<ge> nbf_size bf then (Return (False, Some IndexTooLarge), w)
      else if \<not> unat idx < length (heap w (nbf_bv bf)) then (Panics IndexOutOfRange, w)
      else (if heap w (nbf_bv bf) ! unat idx = 1 then (Return (True, None), w)
            else (Return (False, None), w)))"

definition nbf_getByteAsync :: "NaiveBloomFilter \<Rightarrow> uint64 \<Rightarrow> byte world \<Rightarrow> (bool \<times> error option) outcome \<times> byte world" where
  "nbf_getByteAsync bf idx w =
     (if idx \<ge> nbf_size bf then (Return (False, Some IndexTooLarge), w)
      else if \<not> unat idx < length (heap w (nbf_bv bf)) then (Panics IndexOutOfRange, w)
      else (if heap w (nbf_bv bf) ! unat idx = 1 then (Return (True, None), w)
            else (Return (False, None), w)))"

fun nbf_Lookup_loop :: "NaiveBloomFilter \<Rightarrow> uint64 list \<Rightarrow> byte world \<Rightarrow> (bool \<times> error option) outcome \<times> byte world" where
  "nbf_Lookup_loop bf [] w = (Return (True, None), w)"
| "nbf_Lookup_loop bf (h # hs) w =
     (case nbf_getByte bf (h AND (nbf_size bf - 1)) w of
        (Panics p, w') \<Rightarrow> (Panics p, w')
      | (Return (exists, err), w') \<Rightarrow>
          (if \<not> exists then (Return (False, err), w') else nbf_Lookup_loop bf hs w'))"

definition nbf_Lookup :: "(byte list \<Rightarrow> uint64) \<Rightarrow> NaiveBloomFilter \<Rightarrow> byte list \<Rightarrow> byte world \<Rightarrow> (bool \<times> error option) outcome \<times> byte world" where
  "nbf_Lookup H bf entry w =
     (case hashEntry H entry (nbf_hf bf) of
        Panics p \<Rightarrow> (Panics p, w)
      | Return hashes \<Rightarrow> nbf_Lookup_loop bf hashes w)"

fun nbf_LookupAsync_loop :: "NaiveBloomFilter \<Rightarrow> uint64 list \<Rightarrow> byte world \<Rightarrow> (bool \<times> error option) outcome \<times> byte world" where
  "nbf_LookupAsync_loop bf [] w = (Return (True, None), w)"
| "nbf_LookupAsync_loop bf (h # hs) w =
     (case nbf_getByteAsync bf (h AND (nbf_size bf - 1)) w of
        (Panics p, w') \<Rightarrow> (Panics p, w')
      | (Return (exists, err), w') \<Rightarrow>
          (if \<not> exists then (Return (False, err), w') else nbf_LookupAsync_loop bf hs w'))"

definition nbf_LookupAsync :: "(byte list \<Rightarrow> uint64) \<Rightarrow> NaiveBloomFilter \<Rightarrow> byte list \<Rightarrow> byte world \<Rightarrow> (bool \<times> error option) outcome \<times> byte world" where
  "nbf_LookupAsync H bf entry w =
     (case hashEntry H entry (nbf_hf bf) of
        Panics p \<Rightarrow> (Panics p, w)
      | Return hashes \<Rightarrow> nbf_LookupAsync_loop bf hashes w)"

fun nbf_Insert_loop :: "NaiveBloomFilter \<Rightarrow> uint64 list \<Rightarrow> byte world \<Rightarrow> error option outcome \<times> byte world" where
  "nbf_Insert_loop bf [] w = (Return None, w)"
| "nbf_Insert_loop bf (h # hs) w =
     (case nbf_setByte bf (h AND (nbf_size bf - 1)) w of
        (Panics p, w') \<Rightarrow> (Panics p, w')
      | (Return (Some e), w') \<Rightarrow> (Return (Some e), w')
      | (Return None, w') \<Rightarrow> nbf_Insert_loop bf hs w')"

definition nbf_Insert :: "(byte list \<Rightarrow> uint64) \<Rightarrow> NaiveBloomFilter \<Rightarrow> byte list \<Rightarrow> byte world \<Rightarrow> error option outcome \<times> byte world" where
  "nbf_Insert H bf entry w =
     (case hashEntry H entry (nbf_hf bf) of
        Panics p \<Rightarrow> (Panics p, w)
      | Return hashes \<Rightarrow> nbf_Insert_loop bf hashes w)"

fun nbf_InsertAsync_loop :: "NaiveBloomFilter \<Rightarrow> uint64 list \<Rightarrow> byte world \<Rightarrow> error option outcome \<times> byte world" where
  "nbf_InsertAsync_loop bf [] w = (Return None, w)"
| "nbf_InsertAsync_loop bf (h # hs) w =
     (case nbf_setByteAsync bf (h AND (nbf_size bf - 1)) w of
        (Panics p, w') \<Rightarrow> (Panics p, w')
      | (Return (Some e), w') \<Rightarrow> (Return (Some e), w')
      | (Return None, w') \<Rightarrow> nbf_InsertAsync_loop bf hs w')"

definition nbf_InsertAsync :: "(byte list \<Rightarrow> uint64) \<Rightarrow> NaiveBloomFilter \<Rightarrow> byte list \<Rightarrow> byte world \<Rightarrow> error option outcome \<times> byte world" where
  "nbf_InsertAsync H bf entry w =
     (case hashEntry H entry (nbf_hf bf) of
        Panics p \<Rightarrow> (Panics p, w)
      | Return hashes \<Rightarrow> nbf_InsertAsync_loop bf hashes w)"

definition nbf_Write :: "NaiveBloomFilter \<Rightarrow> string \<Rightarrow> byte world \<Rightarrow> error option outcome \<times> byte world" where
  "nbf_Write bf filename w =
     (if locked w filename then (Return (Some IOError), w)
      else (let w1 = w\<lparr>files := (files w)(filename \<mapsto> [])\<rparr> in
        case naive_Write_loop (heap w1 (nbf_bv bf)) (nat (sint (nbf_size bf))) 0 [] of
          Panics p \<Rightarrow> (Panics p, w1)
        | Return b \<Rightarrow> (Return None, w1\<lparr>files := (files w1)(filename \<mapsto> b)\<rparr>)))"

fun nbf_Load_loop :: "NaiveBloomFilter \<Rightarrow> byte list \<Rightarrow> nat \<Rightarrow> byte world \<Rightarrow> error option outcome \<times> byte world" where
  "nbf_Load_loop bf [] i w = (Return None, w)"
| "nbf_Load_loop bf (b # bs) i w =
     (if b > 0 then
        (case nbf_setByte bf (of_nat i) w of
           (Panics p, w') \<Rightarrow> (Panics p, w')
         | (Return e, w') \<Rightarrow> nbf_Load_loop bf bs (Suc i) w')
      else nbf_Load_loop bf bs (Suc i) w)"

definition nbf_Load :: "NaiveBloomFilter \<Rightarrow> string \<Rightarrow> byte world \<Rightarrow> error option outcome \<times> byte world" where
  "nbf_Load bf filename w =
     (case files w filename of
        None \<Rightarrow> (Return (Some IOError), w)
      | Some content \<Rightarrow>
          (let bv = ReadBytes content 0x0A in
           if nbf_size bf \<noteq> word_of_int (int (length bv) - 1)
           then (Return (Some (SizeMismatch (int (length bv) - 1) (nbf_size bf))), w)
           else nbf_Load_loop bf bv 0 w))"

section \<open>Validly constructed filters\<close>

text \<open>
  What each constructor establishes when it returns a filter, and what every method
  keeps (the methods write elements of the backing array and nothing else of it): the
  checked constraints on \<open>size\<close> and \<open>shards\<close>, the precomputed \<open>shardLen\<close>, one mutex for
  each shard, and a backing array of \<open>size/64\<close> words (packed) or \<open>size\<close> bytes (one byte for
  each position) that \<open>make\<close> was able to allocate.
\<close>

definition sbf_valid :: "StripedBloomFilter \<Rightarrow> uint64 world \<Rightarrow> bool" where
  "sbf_valid bf w \<longleftrightarrow>
     64 \<le> sbf_size bf \<and> sbf_size bf AND (sbf_size bf - 1) = 0 \<and>
     sbf_shards bf \<noteq> 0 \<and> sbf_shards bf AND (sbf_shards bf - 1) = 0 \<and>
     sbf_shards bf \<le> sbf_size bf div 64 \<and> sbf_size bf mod sbf_shards bf = 0 \<and>
     sbf_shardLen bf = sbf_size bf div sbf_shards bf \<and> sbf_mutArr bf = unat (sbf_shards bf) \<and>
     sbf_bv bf < next_ref w \<and> length (heap w (sbf_bv bf)) = unat (sbf_size bf div 64)"

definition bf_valid :: "BloomFilter \<Rightarrow> uint64 world \<Rightarrow> bool" where
  "bf_valid bf w \<longleftrightarrow>
     64 \<le> bf_size bf \<and> bf_size bf AND (bf_size bf - 1) = 0 \<and>
     bf_bv bf < next_ref w \<and> length (heap w (bf_bv bf)) = unat (bf_size bf div 64)"

definition nsbf_valid :: "NaiveStripedBloomFilter \<Rightarrow> byte world \<Rightarrow> bool" where
  "nsbf_valid bf w \<longleftrightarrow>
     64 \<le> nsbf_size bf \<and> nsbf_size bf AND (nsbf_size bf - 1) = 0 \<and> 0 \<le> sint (nsbf_size bf) \<and>
     nsbf_shards bf \<noteq> 0 \<and> nsbf_shards bf AND (nsbf_shards bf - 1) = 0 \<and>
     nsbf_shards bf \<le> nsbf_size bf div 64 \<and> nsbf_size bf mod nsbf_shards bf = 0 \<and>
     nsbf_shardLen bf = nsbf_size bf div nsbf_shards bf \<and> nsbf_mutArr bf = unat (nsbf_shards bf) \<and>
     nsbf_bv bf < next_ref w \<and> length (heap w (nsbf_bv bf)) = unat (nsbf_size bf)"

definition nbf_valid :: "NaiveBloomFilter \<Rightarrow> byte world \<Rightarrow> bool" where
  "nbf_valid bf w \<longleftrightarrow>
     64 \<le> nbf_size bf \<and> nbf_size bf AND (nbf_size bf - 1) = 0 \<and> 0 \<le> sint (nbf_size bf) \<and>
     nbf_bv bf < next_ref w \<and> length (heap w (nbf_bv bf)) = unat (nbf_size bf)"

text \<open>A world with no array and no file, in which every path can be written.\<close>

definition empty_world :: "'a world" where
  "empty_world = \<lparr>heap = (\<lambda>r. []), next_ref = 0, files = (\<lambda>f. None), locked = (\<lambda>f. False)\<rparr>"

section \<open>Reading a position, and a caller's sequence of inserts\<close>

text \<open>
  A position reads as set when the locking single-position getter of the filter returns
  \<open>true\<close> and no error for it.
\<close>

definition sbf_reads_set :: "StripedBloomFilter \<Rightarrow> uint64 world \<Rightarrow> uint64 \<Rightarrow> bool" where
  "sbf_reads_set bf w p \<longleftrightarrow> fst (sbf_getBit bf p w) = Return (True, None)"

definition bf_reads_set :: "BloomFilter \<Rightarrow> uint64 world \<Rightarrow> uint64 \<Rightarrow> bool" where
  "bf_reads_set bf w p \<longleftrightarrow> fst (bf_getBit bf p w) = Return (True, None)"

definition nsbf_reads_set :: "NaiveStripedBloomFilter \<Rightarrow> byte world \<Rightarrow> uint64 \<Rightarrow> bool" where
  "nsbf_reads_set bf w p \<longleftrightarrow> fst (nsbf_getByte bf p w) = Return (True, None)"

definition nbf_reads_set :: "NaiveBloomFilter \<Rightarrow> byte world \<Rightarrow> uint64 \<Rightarrow> bool" where
  "nbf_reads_set bf w p \<longleftrightarrow> fst (nbf_getByte bf p w) = Return (True, None)"

text \<open>
  A caller that inserts a list of keys one after the other into the same filter, as the
  test of the repository does, and stops at the first call that does not return \<open>nil\<close>.
\<close>

fun sbf_Inserts :: "(byte list \<Rightarrow> uint64) \<Rightarrow> StripedBloomFilter \<Rightarrow> byte list list \<Rightarrow> uint64 world \<Rightarrow> error option outcome \<times> uint64 world" where
  "sbf_Inserts H bf [] w = (Return None, w)"
| "sbf_Inserts H bf (k # ks) w =
     (case sbf_Insert H bf k w of
        (Panics p, w') \<Rightarrow> (Panics p, w')
      | (Return (Some e), w') \<Rightarrow> (Return (Some e), w')
      | (Return None, w') \<Rightarrow> sbf_Inserts H bf ks w')"

fun bf_Inserts :: "(byte list \<Rightarrow> uint64) \<Rightarrow> BloomFilter \<Rightarrow> byte list list \<Rightarrow> uint64 world \<Rightarrow> error option outcome \<times> uint64 world" where
  "bf_Inserts H bf [] w = (Return None, w)"
| "bf_Inserts H bf (k # ks) w =
     (case bf_Insert H bf k w of
        (Panics p, w') \<Rightarrow> (Panics p, w')
      | (Return (Some e), w') \<Rightarrow> (Return (Some e), w')
      | (Return None, w') \<Rightarrow> bf_Inserts H bf ks w')"

fun nsbf_Inserts :: "(byte list \<Rightarrow> uint64) \<Rightarrow> NaiveStripedBloomFilter \<Rightarrow> byte list list \<Rightarrow> byte world \<Rightarrow> error option outcome \<times> byte world" where
  "nsbf_Inserts H bf [] w = (Return None, w)"
| "nsbf_Inserts H bf (k # ks) w =
     (case nsbf_Insert H bf k w of
        (Panics p, w') \<Rightarrow> (Panics p, w')
      | (Return (Some e), w') \<Rightarrow> (Return (Some e), w')
      | (Return None, w') \<Rightarrow> nsbf_Inserts H bf ks w')"

fun nbf_Inserts :: "(byte list \<Rightarrow> uint64) \<Rightarrow> NaiveBloomFilter \<Rightarrow> byte list list \<Rightarrow> byte world \<Rightarrow> error option outcome \<times> byte world" where
  "nbf_Inserts H bf [] w = (Return None, w)"
| "nbf_Inserts H bf (k # ks) w =
     (case nbf_Insert H bf k w of
        (Panics p, w') \<Rightarrow> (Panics p, w')
      | (Return (Some e), w') \<Rightarrow> (Return (Some e), w')
      | (Return None, w') \<Rightarrow> nbf_Inserts H bf ks w')"

section \<open>Properties of hashEntry\<close>

lemma byte_and_ff: "(b :: byte) AND 0xFF = b"
proof -
  have "(0xFF :: byte) = - 1" by simp
  then show ?thesis by (simp only: word_bw_same and.right_neutral bit.conj_one_right)
qed

lemma pert_same: "entry \<noteq> [] \<Longrightarrow> entry[length entry - 1 := (entry ! (length entry - 1)) AND (0xFF :: byte)] = entry"
  by (simp only: byte_and_ff list_update_id)

lemma hashEntry_loop_const:
  "entry \<noteq> [] \<Longrightarrow> i + m = length out \<Longrightarrow>
   hashEntry_loop H m entry out i = Return (take i out @ replicate m (H entry))"
proof (induction m arbitrary: out i)
  case 0
  then show ?case by simp
next
  case (Suc m)
  have len: "i < length out" using Suc.prems by simp
  have step: "hashEntry_loop H (Suc m) entry out i = hashEntry_loop H m entry (out[i := H entry]) (Suc i)"
    using Suc.prems(1) by (simp add: pert_same Let_def del: One_nat_def)
  have "hashEntry_loop H m entry (out[i := H entry]) (Suc i)
        = Return (take (Suc i) (out[i := H entry]) @ replicate m (H entry))"
    using Suc.prems by (intro Suc.IH) simp_all
  also have "take (Suc i) (out[i := H entry]) = take i out @ [H entry]"
    using len by (simp add: take_Suc_conv_app_nth)
  finally show ?case using step by (simp add: replicate_app_Cons_same)
qed

lemma hashEntry_nonempty:
  "entry \<noteq> [] \<Longrightarrow> 0 \<le> n \<Longrightarrow> hashEntry H entry n = Return (replicate (nat n) (H entry))"
  by (simp add: hashEntry_def hashEntry_loop_const)

lemma hashEntry_empty:
  "0 < n \<Longrightarrow> hashEntry H [] n = Panics IndexOutOfRange"
proof -
  assume "0 < n"
  then obtain m where "nat n = Suc m" by (cases "nat n") auto
  with \<open>0 < n\<close> show ?thesis by (simp add: hashEntry_def)
qed

lemma hashEntry_zero: "hashEntry H entry 0 = Return []"
  by (simp add: hashEntry_def)

lemma hashEntry_negative: "n < 0 \<Longrightarrow> hashEntry H entry n = Panics MakeSliceLen"
  by (simp add: hashEntry_def)

section \<open>Facts about 64-bit words\<close>

lemma or_keeps_mask: "(x :: uint64) AND m \<noteq> 0 \<Longrightarrow> (x OR v) AND m \<noteq> 0"
  by (metis (no_types, lifting) and.assoc and.commute word_ao_absorbs(3) zero_and_eq)

lemma masked_le: "(h :: uint64) AND (sz - 1) \<le> sz - 1"
  by (simp add: word_and_le1)

lemma unat_ge64: "64 \<le> (sz::uint64) \<Longrightarrow> 64 \<le> unat sz"
  by (simp add: word_le_nat_alt)

lemma le_pred_unat: "64 \<le> (sz::uint64) \<Longrightarrow> idx \<le> sz - 1 \<Longrightarrow> unat idx < unat sz"
proof -
  assume a: "64 \<le> sz" and b: "idx \<le> sz - 1"
  have nz: "sz \<noteq> 0" using a by auto
  have "unat (sz - 1) = unat sz - 1" using nz by (rule unat_minus_one)
  moreover have "unat idx \<le> unat (sz - 1)" using b by (simp add: word_le_nat_alt)
  moreover have "64 \<le> unat sz" using a by (rule unat_ge64)
  ultimately show ?thesis by arith
qed

lemma gt_pred_iff: "64 \<le> (sz::uint64) \<Longrightarrow> idx > sz - 1 \<longleftrightarrow> idx \<ge> sz"
proof -
  assume a: "64 \<le> sz"
  have nz: "sz \<noteq> 0" using a by auto
  have "unat (sz - 1) = unat sz - 1" using nz by (rule unat_minus_one)
  moreover have "64 \<le> unat sz" using a by (rule unat_ge64)
  ultimately show ?thesis by (simp add: word_le_nat_alt word_less_nat_alt) arith
qed

lemma unat_div64: "unat ((idx :: uint64) div 64) = unat idx div 64"
  by (simp add: unat_div)

lemma unat_and63: "unat ((idx :: uint64) AND 63) = unat idx mod 64"
proof -
  have "(63::uint64) = mask 6" by (simp add: mask_eq_exp_minus_1)
  then have "idx AND 63 = take_bit 6 idx" by (simp add: take_bit_eq_mask)
  then show ?thesis by (simp add: take_bit_eq_mod unat_mod)
qed

text \<open>A size that passed the two checks of the constructors is a multiple of 64.\<close>

lemma pow2_dvd64:
  assumes a: "64 \<le> (x :: uint64)" and p: "x AND (x - 1) = 0"
  shows "64 dvd unat x"
proof (rule ccontr)
  assume nd: "\<not> 64 dvd unat x"
  have nz: "x \<noteq> 0" using a by auto
  have u1: "unat (x - 1) = unat x - 1" using nz by (rule unat_minus_one)
  have ge: "64 \<le> unat x" using a by (rule unat_ge64)
  define q where "q = unat x div 64"
  define r where "r = unat x mod 64"
  have split: "unat x = 64 * q + r" by (simp add: q_def r_def)
  have r: "0 < r" "r < 64" using nd by (simp_all add: r_def dvd_eq_mod_eq_0)
  have "(unat x - 1) div 64 = q"
    by (rule div_nat_eqI) (use split r in simp_all)
  then have d: "unat (x - 1) div 64 = unat x div 64" by (simp add: u1 q_def)
  have "drop_bit 6 (x - 1) = drop_bit 6 x"
    by (rule word_unat_eq_iff [THEN iffD2]) (use d in \<open>simp add: drop_bit_eq_div unat_div\<close>)
  then have "drop_bit 6 (x AND (x - 1)) = drop_bit 6 x"
    by simp
  then have "drop_bit 6 x = 0" using p by simp
  then have "unat x div 64 = 0"
    using unat_drop_bit_eq [of 6 x] by (simp add: drop_bit_eq_div)
  then show False using ge by simp
qed

lemma div64_less: "64 dvd (n::nat) \<Longrightarrow> i < n \<Longrightarrow> i div 64 < n div 64"
proof -
  assume d: "64 dvd n" and l: "i < n"
  from d obtain k where k: "n = k * 64" by (auto simp: dvd_def)
  have "i div 64 < k" using l unfolding k by (rule less_mult_imp_div_less)
  then show ?thesis by (simp add: k)
qed

lemma shard_less:
  assumes s0: "s \<noteq> (0::nat)" and sn: "s \<le> n" and m: "n mod s = 0" and i: "i < n"
  shows "n div s \<noteq> 0" and "i div (n div s) < s"
proof -
  show "n div s \<noteq> 0" using s0 sn by (simp add: div_greater_zero_iff)
  have "n = s * (n div s)" using m by auto
  then have "i < s * (n div s)" using i by simp
  then show "i div (n div s) < s" by (rule less_mult_imp_div_less)
qed

lemma word_shard_less:
  fixes sz sh idx :: uint64
  assumes sz: "64 \<le> sz" and s0: "sh \<noteq> 0" and le: "sh \<le> sz div 64" and m: "sz mod sh = 0"
    and i: "idx \<le> sz - 1"
  shows "sz div sh \<noteq> 0" and "unat (idx div (sz div sh)) < unat sh"
proof -
  have s0': "unat sh \<noteq> 0" using s0 by (simp add: unat_eq_zero)
  have "unat sh \<le> unat sz div 64" using le by (simp add: word_le_nat_alt unat_div)
  then have sn: "unat sh \<le> unat sz" by (rule order_trans) simp
  have m': "unat sz mod unat sh = 0" using m by (metis unat_mod unat_0)
  have i': "unat idx < unat sz" using sz i by (rule le_pred_unat)
  have "unat (sz div sh) \<noteq> 0" using shard_less(1) [OF s0' sn m' i'] by (simp add: unat_div)
  then show "sz div sh \<noteq> 0" by (simp add: unat_eq_zero)
  show "unat (idx div (sz div sh)) < unat sh"
    using shard_less(2) [OF s0' sn m' i'] by (simp add: unat_div)
qed

lemma sint_small: "unat (x :: uint64) < 2 ^ 63 \<Longrightarrow> sint x = int (unat x)"
proof -
  assume a: "unat x < 2 ^ 63"
  have u: "uint x < 2 ^ 63" using a by (simp add: unat_eq_nat_uint nat_less_iff del: nat_uint_eq)
  have "signed_take_bit 63 (uint x) = uint x"
    by (rule signed_take_bit_int_eq_self) (use u in \<open>simp_all add: order_trans [OF _ uint_ge_0]\<close>)
  then show ?thesis by (simp add: sint_uint)
qed

lemma sint_big: "2 ^ 63 \<le> unat (x :: uint64) \<Longrightarrow> sint x < 0"
proof -
  assume a: "2 ^ 63 \<le> unat x"
  have u: "2 ^ 63 \<le> uint x" using a by (simp add: unat_eq_nat_uint le_nat_iff del: nat_uint_eq)
  have "signed_take_bit 63 (uint x) \<le> uint x - 2 ^ Suc 63"
    using u by (rule signed_take_bit_int_less_eq)
  moreover have "uint x < 2 ^ 64" using uint_bounded [of x] by simp
  moreover have "sint x = signed_take_bit 63 (uint x)" by (simp add: sint_uint)
  moreover have "(2::int) ^ Suc 63 = 2 ^ 64" by simp
  ultimately show ?thesis by linarith
qed

lemma sint_nonneg: "0 \<le> sint (x :: uint64) \<Longrightarrow> unat x < 2 ^ 63 \<and> nat (sint x) = unat x"
proof -
  assume a: "0 \<le> sint x"
  have s: "unat x < 2 ^ 63" using a sint_big [of x] by (cases "unat x < 2 ^ 63") auto
  then show ?thesis using sint_small [OF s] by simp
qed

text \<open>
  A number whose successor shares no bit with it is a block of low ones; so under a size
  that passed the power-of-two check, masking with \<open>size - 1\<close> keeps every position
  below the size as it is.
\<close>

lemma nat_mask_shape: "Suc m AND m = 0 \<Longrightarrow> \<exists>k. m = 2 ^ k - 1"
proof (induction m rule: less_induct)
  case (less m)
  show ?case
  proof (cases "even m")
    case True
    have "Suc m AND m = of_bool (odd (Suc m) \<and> odd m) + 2 * ((Suc m div 2) AND (m div 2))"
      by (rule and_nat_rec)
    also have "Suc m div 2 = m div 2" using True by simp
    finally have "2 * (m div 2) = 0" using less.prems True by simp
    then have "m = 0" using True by auto
    then show ?thesis by (intro exI [of _ 0]) simp
  next
    case False
    define a where "a = m div 2"
    have m: "m = 2 * a + 1" using False by (simp add: a_def)
    have "Suc m AND m = of_bool (odd (Suc m) \<and> odd m) + 2 * ((Suc m div 2) AND (m div 2))"
      by (rule and_nat_rec)
    also have "Suc m div 2 = Suc a" using m by simp
    finally have "Suc a AND a = 0" using less.prems False by (simp add: a_def)
    moreover have "a < m" using m by simp
    ultimately obtain k where k: "a = 2 ^ k - 1" using less.IH by blast
    define x :: nat where "x = 2 ^ k"
    have "1 \<le> x" by (simp add: x_def)
    then have "2 * (x - 1) + 1 = 2 * x - 1" by arith
    then have "m = 2 ^ Suc k - 1" unfolding m k by (simp add: x_def)
    then show ?thesis by blast
  qed
qed

lemma nat_and_mask_id: "p \<le> 2 ^ k - 1 \<Longrightarrow> (p::nat) AND (2 ^ k - 1) = p"
proof -
  assume "p \<le> 2 ^ k - 1"
  moreover have "(0::nat) < 2 ^ k" by simp
  ultimately have "p < 2 ^ k" by arith
  then have "take_bit k p = p" by (simp add: take_bit_nat_eq_self)
  then show ?thesis by (simp add: take_bit_eq_mask mask_eq_exp_minus_1)
qed

lemma masked_id:
  assumes a: "64 \<le> (sz :: uint64)" and p2: "sz AND (sz - 1) = 0" and le: "p \<le> sz - 1"
  shows "p AND (sz - 1) = p"
proof -
  have nz: "sz \<noteq> 0" using a by auto
  have u1: "unat (sz - 1) = unat sz - 1" using nz by (rule unat_minus_one)
  have pos: "0 < unat sz" using nz by (simp add: unat_gt_0)
  have "unat (sz AND (sz - 1)) = 0" using p2 by simp
  then have "unat sz AND (unat sz - 1) = 0" by (simp add: unsigned_and_eq u1)
  then have "Suc (unat sz - 1) AND (unat sz - 1) = 0" using pos by simp
  then obtain k where k: "unat sz - 1 = 2 ^ k - 1" using nat_mask_shape by blast
  have "unat p \<le> unat sz - 1" using le by (simp add: word_le_nat_alt u1)
  then have "unat p \<le> 2 ^ k - 1" by (simp only: k)
  then have "unat p AND (2 ^ k - 1) = unat p" by (rule nat_and_mask_id)
  then have "unat p AND (unat sz - 1) = unat p" by (simp only: k)
  then have "unat (p AND (sz - 1)) = unat p" by (simp add: unsigned_and_eq u1)
  then show ?thesis by (simp add: word_unat_eq_iff)
qed

section \<open>The constructors establish validity\<close>

lemma New_sbf_valid:
  "NewStripedBloomFilter sz h sh w = (Return (Inr bf), w') \<Longrightarrow> sbf_valid bf w'"
  by (auto simp: NewStripedBloomFilter_def sbf_valid_def make_slice_def alloc_def Let_def
           split: if_splits prod.splits del: mod_0_imp_dvd)

lemma New_bf_valid:
  "NewBloomFilter sz h w = (Return (Inr bf), w') \<Longrightarrow> bf_valid bf w'"
  by (auto simp: NewBloomFilter_def bf_valid_def make_slice_def alloc_def Let_def
           split: if_splits prod.splits)

lemma New_nsbf_valid:
  "NewNaiveStripedBloomFilter sz h sh w = (Return (Inr bf), w') \<Longrightarrow> nsbf_valid bf w'"
  by (auto simp: NewNaiveStripedBloomFilter_def nsbf_valid_def make_slice_def alloc_def Let_def
           split: if_splits prod.splits del: mod_0_imp_dvd)

lemma New_nbf_valid:
  "NewNaiveBloomFilter sz h w = (Return (Inr bf), w') \<Longrightarrow> nbf_valid bf w'"
  by (auto simp: NewNaiveBloomFilter_def nbf_valid_def make_slice_def alloc_def Let_def
           split: if_splits prod.splits)

lemma sbf_fresh_unset:
  "NewStripedBloomFilter sz h sh w0 = (Return (Inr bf), w) \<Longrightarrow> \<not> sbf_reads_set bf w p"
  by (auto simp: NewStripedBloomFilter_def make_slice_def alloc_def Let_def
        sbf_reads_set_def sbf_getBit_def split: if_splits)

lemma bf_fresh_unset:
  "NewBloomFilter sz h w0 = (Return (Inr bf), w) \<Longrightarrow> \<not> bf_reads_set bf w p"
  by (auto simp: NewBloomFilter_def make_slice_def alloc_def Let_def
        bf_reads_set_def bf_getBit_def split: if_splits)

lemma nsbf_fresh_unset:
  "NewNaiveStripedBloomFilter sz h sh w0 = (Return (Inr bf), w) \<Longrightarrow> \<not> nsbf_reads_set bf w p"
  by (auto simp: NewNaiveStripedBloomFilter_def make_slice_def alloc_def Let_def
        nsbf_reads_set_def nsbf_getByte_def split: if_splits)

lemma nbf_fresh_unset:
  "NewNaiveBloomFilter sz h w0 = (Return (Inr bf), w) \<Longrightarrow> \<not> nbf_reads_set bf w p"
  by (auto simp: NewNaiveBloomFilter_def make_slice_def alloc_def Let_def
        nbf_reads_set_def nbf_getByte_def split: if_splits)

section \<open>StripedBloomFilter: single positions\<close>

lemma sbf_in_range:
  assumes v: "sbf_valid bf w" and i: "idx \<le> sbf_size bf - 1"
  shows "sbf_shardLen bf \<noteq> 0" and "unat (idx div sbf_shardLen bf) < sbf_mutArr bf"
    and "unat (idx div 64) < length (heap w (sbf_bv bf))"
proof -
  have sz: "64 \<le> sbf_size bf" and p: "sbf_size bf AND (sbf_size bf - 1) = 0"
    and s0: "sbf_shards bf \<noteq> 0" and le: "sbf_shards bf \<le> sbf_size bf div 64"
    and m: "sbf_size bf mod sbf_shards bf = 0"
    and sl: "sbf_shardLen bf = sbf_size bf div sbf_shards bf"
    and ma: "sbf_mutArr bf = unat (sbf_shards bf)"
    and len: "length (heap w (sbf_bv bf)) = unat (sbf_size bf div 64)"
    using v by (simp_all add: sbf_valid_def)
  show "sbf_shardLen bf \<noteq> 0" unfolding sl by (rule word_shard_less(1) [OF sz s0 le m i])
  show "unat (idx div sbf_shardLen bf) < sbf_mutArr bf"
    unfolding sl ma by (rule word_shard_less(2) [OF sz s0 le m i])
  have "unat idx div 64 < unat (sbf_size bf) div 64"
    by (rule div64_less [OF pow2_dvd64 [OF sz p] le_pred_unat [OF sz i]])
  then show "unat (idx div 64) < length (heap w (sbf_bv bf))"
    by (simp add: len unat_div)
qed

lemma sbf_setBit_ok:
  "sbf_valid bf w \<Longrightarrow> idx \<le> sbf_size bf - 1 \<Longrightarrow>
   sbf_setBit bf idx w = (Return None,
      w\<lparr>heap := (heap w)(sbf_bv bf := (heap w (sbf_bv bf))[unat idx div 64 :=
                      (heap w (sbf_bv bf) ! (unat idx div 64)) OR push_bit (unat idx mod 64) 1])\<rparr>)"
  using sbf_in_range [of bf w idx]
  by (simp add: sbf_setBit_def Let_def unat_and63 unat_div64 not_less [symmetric] del: not_less)

lemma sbf_getBit_ok:
  "sbf_valid bf w \<Longrightarrow> idx \<le> sbf_size bf - 1 \<Longrightarrow>
   sbf_getBit bf idx w =
     (Return ((heap w (sbf_bv bf) ! (unat idx div 64)) AND push_bit (unat idx mod 64) 1 \<noteq> 0, None), w)"
  using sbf_in_range [of bf w idx]
  by (simp add: sbf_getBit_def Let_def unat_and63 unat_div64)

lemma sbf_setBit_returns:
  "sbf_valid bf w \<Longrightarrow> idx \<le> sbf_size bf - 1 \<Longrightarrow> fst (sbf_setBit bf idx w) = Return None"
  by (simp add: sbf_setBit_ok)

lemma sbf_getBit_returns:
  "sbf_valid bf w \<Longrightarrow> idx \<le> sbf_size bf - 1 \<Longrightarrow> \<exists>b. sbf_getBit bf idx w = (Return (b, None), w)"
  by (simp add: sbf_getBit_ok)

lemma sbf_getBit_world: "snd (sbf_getBit bf idx w) = w"
  by (simp add: sbf_getBit_def Let_def)

lemma sbf_setBit_cases:
  "sbf_setBit bf idx w = (r, w') \<Longrightarrow>
   w' = w \<or> (\<exists>i v. i < length (heap w (sbf_bv bf)) \<and>
      w' = w\<lparr>heap := (heap w)(sbf_bv bf := (heap w (sbf_bv bf))[i := (heap w (sbf_bv bf) ! i) OR v])\<rparr>)"
  by (auto simp: sbf_setBit_def Let_def split: if_splits)

lemma sbf_reads_set_or:
  "sbf_reads_set bf w p \<Longrightarrow> i < length (heap w (sbf_bv bf)) \<Longrightarrow>
   sbf_reads_set bf (w\<lparr>heap := (heap w)(sbf_bv bf := (heap w (sbf_bv bf))[i := (heap w (sbf_bv bf) ! i) OR v])\<rparr>) p"
  by (cases "unat (p div 64) = i")
     (auto simp: sbf_reads_set_def sbf_getBit_def Let_def or_keeps_mask split: if_splits)

lemma sbf_setBit_monotone:
  "sbf_reads_set bf w p \<Longrightarrow> sbf_reads_set bf (snd (sbf_setBit bf idx w)) p"
  using sbf_setBit_cases [of bf idx w "fst (sbf_setBit bf idx w)" "snd (sbf_setBit bf idx w)"]
  by (auto simp: sbf_reads_set_or)

lemma sbf_setBit_valid:
  "sbf_valid bf w \<Longrightarrow> sbf_valid bf (snd (sbf_setBit bf idx w))"
  using sbf_setBit_cases [of bf idx w "fst (sbf_setBit bf idx w)" "snd (sbf_setBit bf idx w)"]
  by (auto simp: sbf_valid_def)

lemma sbf_setBit_reads:
  "sbf_valid bf w \<Longrightarrow> idx \<le> sbf_size bf - 1 \<Longrightarrow> sbf_reads_set bf (snd (sbf_setBit bf idx w)) idx"
proof -
  assume v: "sbf_valid bf w" and i: "idx \<le> sbf_size bf - 1"
  have v': "sbf_valid bf (snd (sbf_setBit bf idx w))" using v by (rule sbf_setBit_valid)
  have l: "unat idx div 64 < length (heap w (sbf_bv bf))"
    using sbf_in_range(3) [OF v i] by (simp add: unat_div64)
  show ?thesis
    unfolding sbf_reads_set_def sbf_getBit_ok [OF v' i]
    by (simp add: sbf_setBit_ok [OF v i] l)
qed

lemma sbf_Async_eq:
  assumes v: "sbf_valid bf w"
  shows "sbf_setBitAsync bf idx w = sbf_setBit bf idx w"
    and "sbf_getBitAsync bf idx w = sbf_getBit bf idx w"
proof -
  show "sbf_setBitAsync bf idx w = sbf_setBit bf idx w"
  proof (cases "sbf_size bf - 1 < idx")
    case True
    then show ?thesis by (simp add: sbf_setBitAsync_def sbf_setBit_def)
  next
    case False
    then have i: "idx \<le> sbf_size bf - 1" by simp
    show ?thesis using sbf_in_range [OF v i]
      by (simp add: sbf_setBitAsync_def sbf_setBit_def Let_def)
  qed
  show "sbf_getBitAsync bf idx w = sbf_getBit bf idx w"
  proof (cases "sbf_size bf - 1 < idx")
    case True
    then show ?thesis by (simp add: sbf_getBitAsync_def sbf_getBit_def)
  next
    case False
    then have i: "idx \<le> sbf_size bf - 1" by simp
    show ?thesis using sbf_in_range [OF v i]
      by (simp add: sbf_getBitAsync_def sbf_getBit_def Let_def)
  qed
qed

section \<open>StripedBloomFilter: Insert and Lookup\<close>

lemma sbf_Insert_loop_monotone:
  "sbf_reads_set bf w p \<Longrightarrow> sbf_reads_set bf (snd (sbf_Insert_loop bf hs w)) p"
proof (induction hs arbitrary: w)
  case Nil
  then show ?case by simp
next
  case (Cons h hs)
  obtain r w' where s: "sbf_setBit bf (h AND (sbf_size bf - 1)) w = (r, w')"
    by (cases "sbf_setBit bf (h AND (sbf_size bf - 1)) w")
  have m: "sbf_reads_set bf w' p"
    using sbf_setBit_monotone [OF Cons.prems, of "h AND (sbf_size bf - 1)"] s by simp
  show ?case using s m Cons.IH [OF m]
    by (auto split: outcome.splits option.splits)
qed

lemma sbf_Insert_loop_ok:
  "sbf_valid bf w \<Longrightarrow>
   \<exists>w'. sbf_Insert_loop bf hs w = (Return None, w') \<and> sbf_valid bf w' \<and>
        (\<forall>h \<in> set hs. sbf_reads_set bf w' (h AND (sbf_size bf - 1)))"
proof (induction hs arbitrary: w)
  case Nil
  then show ?case by simp
next
  case (Cons h hs)
  let ?p = "h AND (sbf_size bf - 1)"
  have i: "?p \<le> sbf_size bf - 1" by (rule masked_le)
  obtain w1 where s: "sbf_setBit bf ?p w = (Return None, w1)"
    using sbf_setBit_returns [OF Cons.prems i] by (cases "sbf_setBit bf ?p w") simp
  have v1: "sbf_valid bf w1" using sbf_setBit_valid [OF Cons.prems, of ?p] s by simp
  have r1: "sbf_reads_set bf w1 ?p" using sbf_setBit_reads [OF Cons.prems i] s by simp
  obtain w' where l: "sbf_Insert_loop bf hs w1 = (Return None, w')" and v': "sbf_valid bf w'"
    and r': "\<forall>h \<in> set hs. sbf_reads_set bf w' (h AND (sbf_size bf - 1))"
    using Cons.IH [OF v1] by blast
  have "sbf_reads_set bf w' ?p" using sbf_Insert_loop_monotone [OF r1, of hs] l by simp
  then show ?case using s l v' r' by simp
qed

lemma sbf_Lookup_loop_world: "snd (sbf_Lookup_loop bf hs w) = w"
proof (induction hs)
  case Nil
  then show ?case by simp
next
  case (Cons h hs)
  obtain r where g: "sbf_getBit bf (h AND (sbf_size bf - 1)) w = (r, w)"
    using sbf_getBit_world [of bf "h AND (sbf_size bf - 1)" w]
    by (cases "sbf_getBit bf (h AND (sbf_size bf - 1)) w") simp
  show ?case using g Cons.IH by (auto split: outcome.splits prod.splits)
qed

lemma sbf_Lookup_loop_true:
  "\<forall>h \<in> set hs. sbf_reads_set bf w (h AND (sbf_size bf - 1)) \<Longrightarrow>
   sbf_Lookup_loop bf hs w = (Return (True, None), w)"
proof (induction hs)
  case Nil
  then show ?case by simp
next
  case (Cons h hs)
  have "fst (sbf_getBit bf (h AND (sbf_size bf - 1)) w) = Return (True, None)"
    using Cons.prems by (simp add: sbf_reads_set_def)
  then have g: "sbf_getBit bf (h AND (sbf_size bf - 1)) w = (Return (True, None), w)"
    using sbf_getBit_world [of bf "h AND (sbf_size bf - 1)" w]
    by (cases "sbf_getBit bf (h AND (sbf_size bf - 1)) w") simp
  show ?case using g Cons by simp
qed

lemma sbf_Lookup_loop_no_error:
  "sbf_valid bf w \<Longrightarrow> \<exists>b. sbf_Lookup_loop bf hs w = (Return (b, None), w)"
proof (induction hs)
  case Nil
  then show ?case by auto
next
  case (Cons h hs)
  have i: "h AND (sbf_size bf - 1) \<le> sbf_size bf - 1" by (rule masked_le)
  obtain b where g: "sbf_getBit bf (h AND (sbf_size bf - 1)) w = (Return (b, None), w)"
    using sbf_getBit_returns [OF Cons.prems i] by blast
  show ?case using g Cons by auto
qed

lemma sbf_Insert_monotone:
  "sbf_reads_set bf w p \<Longrightarrow> sbf_reads_set bf (snd (sbf_Insert H bf key w)) p"
  by (cases "hashEntry H key (sbf_hf bf)") (simp_all add: sbf_Insert_def sbf_Insert_loop_monotone)

lemma sbf_Insert_valid:
  "sbf_valid bf w \<Longrightarrow> sbf_valid bf (snd (sbf_Insert H bf key w))"
proof (cases "hashEntry H key (sbf_hf bf)")
  case (Return hs)
  assume "sbf_valid bf w"
  then show ?thesis using sbf_Insert_loop_ok [of bf w hs] Return
    by (auto simp: sbf_Insert_def)
next
  case (Panics p)
  assume "sbf_valid bf w"
  then show ?thesis using Panics by (simp add: sbf_Insert_def)
qed

lemma sbf_Insert_no_error:
  "sbf_valid bf w \<Longrightarrow> fst (sbf_Insert H bf key w) \<noteq> Return (Some e)"
proof (cases "hashEntry H key (sbf_hf bf)")
  case (Return hs)
  assume "sbf_valid bf w"
  then show ?thesis using sbf_Insert_loop_ok [of bf w hs] Return
    by (auto simp: sbf_Insert_def)
next
  case (Panics p)
  then show ?thesis by (simp add: sbf_Insert_def)
qed

lemma sbf_Insert_ok:
  assumes v: "sbf_valid bf w" and k: "key \<noteq> []" and h: "0 \<le> sbf_hf bf"
  shows "\<exists>w'. sbf_Insert H bf key w = (Return None, w') \<and> sbf_valid bf w' \<and>
           (0 < sbf_hf bf \<longrightarrow> sbf_reads_set bf w' (H key AND (sbf_size bf - 1)))"
proof -
  have he: "hashEntry H key (sbf_hf bf) = Return (replicate (nat (sbf_hf bf)) (H key))"
    using k h by (rule hashEntry_nonempty)
  obtain w' where l: "sbf_Insert_loop bf (replicate (nat (sbf_hf bf)) (H key)) w = (Return None, w')"
    and v': "sbf_valid bf w'"
    and r: "\<forall>x \<in> set (replicate (nat (sbf_hf bf)) (H key)). sbf_reads_set bf w' (x AND (sbf_size bf - 1))"
    using sbf_Insert_loop_ok [OF v] by blast
  have "0 < sbf_hf bf \<longrightarrow> sbf_reads_set bf w' (H key AND (sbf_size bf - 1))"
    using r by auto
  then show ?thesis using l v' by (simp add: sbf_Insert_def he)
qed

lemma sbf_Lookup_world: "snd (sbf_Lookup H bf key w) = w"
  by (cases "hashEntry H key (sbf_hf bf)") (simp_all add: sbf_Lookup_def sbf_Lookup_loop_world)

lemma sbf_Lookup_no_error:
  "sbf_valid bf w \<Longrightarrow> fst (sbf_Lookup H bf key w) \<noteq> Return (b, Some e)"
proof (cases "hashEntry H key (sbf_hf bf)")
  case (Return hs)
  assume "sbf_valid bf w"
  then show ?thesis using sbf_Lookup_loop_no_error [of bf w hs] Return
    by (auto simp: sbf_Lookup_def)
next
  case (Panics p)
  then show ?thesis by (simp add: sbf_Lookup_def)
qed

lemma sbf_Lookup_total:
  "sbf_valid bf w \<Longrightarrow> key \<noteq> [] \<Longrightarrow> 0 \<le> sbf_hf bf \<Longrightarrow>
   \<exists>b. sbf_Lookup H bf key w = (Return (b, None), w)"
  using sbf_Lookup_loop_no_error [of bf w]
  by (simp add: sbf_Lookup_def hashEntry_nonempty)

lemma sbf_Lookup_true:
  assumes k: "key \<noteq> []" and h: "0 \<le> sbf_hf bf"
    and r: "0 < sbf_hf bf \<longrightarrow> sbf_reads_set bf w (H key AND (sbf_size bf - 1))"
  shows "sbf_Lookup H bf key w = (Return (True, None), w)"
proof -
  have he: "hashEntry H key (sbf_hf bf) = Return (replicate (nat (sbf_hf bf)) (H key))"
    using k h by (rule hashEntry_nonempty)
  have "\<forall>x \<in> set (replicate (nat (sbf_hf bf)) (H key)). sbf_reads_set bf w (x AND (sbf_size bf - 1))"
    using r by auto
  then show ?thesis by (simp add: sbf_Lookup_def he sbf_Lookup_loop_true)
qed

lemma sbf_Inserts_ok:
  "sbf_valid bf w \<Longrightarrow> 0 \<le> sbf_hf bf \<Longrightarrow> \<forall>k \<in> set keys. k \<noteq> [] \<Longrightarrow>
   \<exists>w'. sbf_Inserts H bf keys w = (Return None, w') \<and> sbf_valid bf w' \<and>
        (0 < sbf_hf bf \<longrightarrow> (\<forall>k \<in> set keys. sbf_reads_set bf w' (H k AND (sbf_size bf - 1)))) \<and>
        (\<forall>p. sbf_reads_set bf w p \<longrightarrow> sbf_reads_set bf w' p)"
proof (induction keys arbitrary: w)
  case Nil
  then show ?case by simp
next
  case (Cons k ks)
  have k: "k \<noteq> []" and ks: "\<forall>k \<in> set ks. k \<noteq> []" using Cons.prems(3) by simp_all
  obtain w1 where i: "sbf_Insert H bf k w = (Return None, w1)" and v1: "sbf_valid bf w1"
    and r1: "0 < sbf_hf bf \<longrightarrow> sbf_reads_set bf w1 (H k AND (sbf_size bf - 1))"
    using sbf_Insert_ok [OF Cons.prems(1) k Cons.prems(2)] by blast
  have m1: "\<And>p. sbf_reads_set bf w p \<Longrightarrow> sbf_reads_set bf w1 p"
    using sbf_Insert_monotone [of bf w _ H k] i by simp
  obtain w' where l: "sbf_Inserts H bf ks w1 = (Return None, w')" and v': "sbf_valid bf w'"
    and r': "0 < sbf_hf bf \<longrightarrow> (\<forall>k \<in> set ks. sbf_reads_set bf w' (H k AND (sbf_size bf - 1)))"
    and m': "\<forall>p. sbf_reads_set bf w1 p \<longrightarrow> sbf_reads_set bf w' p"
    using Cons.IH [OF v1 Cons.prems(2) ks] by blast
  show ?case using i l v' r' m' r1 m1 by auto
qed

section \<open>StripedBloomFilter: the calls that do not lock\<close>

lemma sbf_InsertAsync_loop_eq:
  "sbf_valid bf w \<Longrightarrow> sbf_InsertAsync_loop bf hs w = sbf_Insert_loop bf hs w"
proof (induction hs arbitrary: w)
  case Nil
  then show ?case by simp
next
  case (Cons h hs)
  obtain r w' where s: "sbf_setBit bf (h AND (sbf_size bf - 1)) w = (r, w')"
    by (cases "sbf_setBit bf (h AND (sbf_size bf - 1)) w")
  have v': "sbf_valid bf w'" using sbf_setBit_valid [OF Cons.prems, of "h AND (sbf_size bf - 1)"] s by simp
  show ?case using s Cons.IH [OF v']
    by (simp add: sbf_Async_eq(1) [OF Cons.prems] split: outcome.splits option.splits)
qed

lemma sbf_LookupAsync_loop_eq:
  "sbf_valid bf w \<Longrightarrow> sbf_LookupAsync_loop bf hs w = sbf_Lookup_loop bf hs w"
proof (induction hs)
  case Nil
  then show ?case by simp
next
  case (Cons h hs)
  obtain r where g: "sbf_getBit bf (h AND (sbf_size bf - 1)) w = (r, w)"
    using sbf_getBit_world [of bf "h AND (sbf_size bf - 1)" w]
    by (cases "sbf_getBit bf (h AND (sbf_size bf - 1)) w") simp
  show ?case using g Cons
    by (simp add: sbf_Async_eq(2) [OF Cons.prems] split: outcome.splits prod.splits)
qed

lemma sbf_InsertAsync_eq: "sbf_valid bf w \<Longrightarrow> sbf_InsertAsync H bf key w = sbf_Insert H bf key w"
  by (cases "hashEntry H key (sbf_hf bf)")
     (simp_all add: sbf_InsertAsync_def sbf_Insert_def sbf_InsertAsync_loop_eq)

lemma sbf_LookupAsync_eq: "sbf_valid bf w \<Longrightarrow> sbf_LookupAsync H bf key w = sbf_Lookup H bf key w"
  by (cases "hashEntry H key (sbf_hf bf)")
     (simp_all add: sbf_LookupAsync_def sbf_Lookup_def sbf_LookupAsync_loop_eq)

section \<open>StripedBloomFilter: Write and Load\<close>

lemma sbf_reads_set_cong:
  "heap w' (sbf_bv bf) = heap w (sbf_bv bf) \<Longrightarrow> sbf_reads_set bf w' p = sbf_reads_set bf w p"
  by (simp add: sbf_reads_set_def sbf_getBit_def Let_def)

lemma sbf_valid_cong:
  "heap w' (sbf_bv bf) = heap w (sbf_bv bf) \<Longrightarrow> next_ref w \<le> next_ref w' \<Longrightarrow>
   sbf_valid bf w \<Longrightarrow> sbf_valid bf w'"
  by (simp add: sbf_valid_def)

lemma sbf_Write_heap: "heap (snd (sbf_Write bf f w)) = heap w"
  by (simp add: sbf_Write_def Let_def split: outcome.splits)

lemma sbf_Write_next_ref: "next_ref (snd (sbf_Write bf f w)) = next_ref w"
  by (simp add: sbf_Write_def Let_def split: outcome.splits)

lemma sbf_Write_monotone:
  "sbf_reads_set bf w p \<Longrightarrow> sbf_reads_set bf (snd (sbf_Write bf f w)) p"
  by (simp add: sbf_reads_set_cong [of "snd (sbf_Write bf f w)" bf w] sbf_Write_heap)

lemma sbf_setBit_heap_other:
  "a \<noteq> sbf_bv bf \<Longrightarrow> heap (snd (sbf_setBit bf idx w)) a = heap w a"
  by (simp add: sbf_setBit_def Let_def)

lemma sbf_Load_loop_heap_other:
  "a \<noteq> sbf_bv bf \<Longrightarrow> heap (snd (sbf_Load_loop bf bs i w)) a = heap w a"
proof (induction bs arbitrary: i w)
  case Nil
  then show ?case by simp
next
  case (Cons b bs)
  obtain r w' where s: "sbf_setBit bf (of_nat i) w = (r, w')"
    by (cases "sbf_setBit bf (of_nat i) w")
  have h: "heap w' a = heap w a"
    using sbf_setBit_heap_other [OF Cons.prems, of "of_nat i" w] s by simp
  show ?case using s h Cons.IH [OF Cons.prems]
    by (auto split: outcome.splits)
qed

lemma sbf_Load_loop_monotone:
  "sbf_reads_set bf w p \<Longrightarrow> sbf_reads_set bf (snd (sbf_Load_loop bf bs i w)) p"
proof (induction bs arbitrary: i w)
  case Nil
  then show ?case by simp
next
  case (Cons b bs)
  obtain r w' where s: "sbf_setBit bf (of_nat i) w = (r, w')"
    by (cases "sbf_setBit bf (of_nat i) w")
  have m: "sbf_reads_set bf w' p"
    using sbf_setBit_monotone [OF Cons.prems, of "of_nat i"] s by simp
  show ?case using s m Cons.IH [OF m] Cons.IH [OF Cons.prems]
    by (auto split: outcome.splits)
qed

lemma sbf_Load_loop_result:
  "fst (sbf_Load_loop bf bs i w) \<noteq> Return (Some e)"
proof (induction bs arbitrary: i w)
  case Nil
  then show ?case by simp
next
  case (Cons b bs)
  obtain r w' where s: "sbf_setBit bf (of_nat i) w = (r, w')"
    by (cases "sbf_setBit bf (of_nat i) w")
  show ?case using s Cons.IH [of "Suc i" w'] Cons.IH [of "Suc i" w]
    by (auto split: outcome.splits)
qed

text \<open>
  Load of StripedBloomFilter works on the receiver's copy, which it gives a new array:
  the array of the caller's filter is never written, and no size is ever compared.
\<close>

lemma sbf_Load_caller_heap:
  "sbf_bv bf < next_ref w \<Longrightarrow> heap (snd (sbf_Load bf f w)) (sbf_bv bf) = heap w (sbf_bv bf)"
  by (auto simp: sbf_Load_def make_slice_def alloc_def Let_def sbf_Load_loop_heap_other
           split: option.splits)

lemma sbf_Load_monotone:
  "sbf_bv bf < next_ref w \<Longrightarrow> sbf_reads_set bf w p \<Longrightarrow> sbf_reads_set bf (snd (sbf_Load bf f w)) p"
  by (simp add: sbf_reads_set_cong [of "snd (sbf_Load bf f w)" bf w] sbf_Load_caller_heap)

lemma sbf_Load_result:
  "fst (sbf_Load bf f w) \<noteq> Return (Some (SizeMismatch a b))"
  by (simp add: sbf_Load_def make_slice_def alloc_def Let_def sbf_Load_loop_result
           split: option.splits)

section \<open>BloomFilter: single positions\<close>

lemma bf_in_range:
  assumes v: "bf_valid bf w" and i: "idx \<le> bf_size bf - 1"
  shows "unat (idx div 64) < length (heap w (bf_bv bf))"
proof -
  have sz: "64 \<le> bf_size bf" and p: "bf_size bf AND (bf_size bf - 1) = 0"
    and len: "length (heap w (bf_bv bf)) = unat (bf_size bf div 64)"
    using v by (simp_all add: bf_valid_def)
  have "unat idx div 64 < unat (bf_size bf) div 64"
    by (rule div64_less [OF pow2_dvd64 [OF sz p] le_pred_unat [OF sz i]])
  then show ?thesis by (simp add: len unat_div)
qed

lemma bf_setBit_ok:
  "bf_valid bf w \<Longrightarrow> idx \<le> bf_size bf - 1 \<Longrightarrow>
   bf_setBit bf idx w = (Return None,
      w\<lparr>heap := (heap w)(bf_bv bf := (heap w (bf_bv bf))[unat idx div 64 :=
                      (heap w (bf_bv bf) ! (unat idx div 64)) OR push_bit (unat idx mod 64) 1])\<rparr>)"
  using bf_in_range [of bf w idx]
  by (simp add: bf_setBit_def Let_def unat_and63 unat_div64 not_less [symmetric] del: not_less)

lemma bf_getBit_ok:
  "bf_valid bf w \<Longrightarrow> idx \<le> bf_size bf - 1 \<Longrightarrow>
   bf_getBit bf idx w =
     (Return ((heap w (bf_bv bf) ! (unat idx div 64)) AND push_bit (unat idx mod 64) 1 \<noteq> 0, None), w)"
  using bf_in_range [of bf w idx]
  by (simp add: bf_getBit_def Let_def unat_and63 unat_div64)

lemma bf_setBit_returns:
  "bf_valid bf w \<Longrightarrow> idx \<le> bf_size bf - 1 \<Longrightarrow> fst (bf_setBit bf idx w) = Return None"
  by (simp add: bf_setBit_ok)

lemma bf_getBit_returns:
  "bf_valid bf w \<Longrightarrow> idx \<le> bf_size bf - 1 \<Longrightarrow> \<exists>b. bf_getBit bf idx w = (Return (b, None), w)"
  by (simp add: bf_getBit_ok)

lemma bf_getBit_world: "snd (bf_getBit bf idx w) = w"
  by (simp add: bf_getBit_def Let_def)

lemma bf_setBit_cases:
  "bf_setBit bf idx w = (r, w') \<Longrightarrow>
   w' = w \<or> (\<exists>i v. i < length (heap w (bf_bv bf)) \<and>
      w' = w\<lparr>heap := (heap w)(bf_bv bf := (heap w (bf_bv bf))[i := (heap w (bf_bv bf) ! i) OR v])\<rparr>)"
  by (auto simp: bf_setBit_def Let_def split: if_splits)

lemma bf_reads_set_or:
  "bf_reads_set bf w p \<Longrightarrow> i < length (heap w (bf_bv bf)) \<Longrightarrow>
   bf_reads_set bf (w\<lparr>heap := (heap w)(bf_bv bf := (heap w (bf_bv bf))[i := (heap w (bf_bv bf) ! i) OR v])\<rparr>) p"
  by (cases "unat (p div 64) = i")
     (auto simp: bf_reads_set_def bf_getBit_def Let_def or_keeps_mask split: if_splits)

lemma bf_setBit_monotone:
  "bf_reads_set bf w p \<Longrightarrow> bf_reads_set bf (snd (bf_setBit bf idx w)) p"
  using bf_setBit_cases [of bf idx w "fst (bf_setBit bf idx w)" "snd (bf_setBit bf idx w)"]
  by (auto simp: bf_reads_set_or)

lemma bf_setBit_valid:
  "bf_valid bf w \<Longrightarrow> bf_valid bf (snd (bf_setBit bf idx w))"
  using bf_setBit_cases [of bf idx w "fst (bf_setBit bf idx w)" "snd (bf_setBit bf idx w)"]
  by (auto simp: bf_valid_def)

lemma bf_setBit_reads:
  "bf_valid bf w \<Longrightarrow> idx \<le> bf_size bf - 1 \<Longrightarrow> bf_reads_set bf (snd (bf_setBit bf idx w)) idx"
proof -
  assume v: "bf_valid bf w" and i: "idx \<le> bf_size bf - 1"
  have v': "bf_valid bf (snd (bf_setBit bf idx w))" using v by (rule bf_setBit_valid)
  have l: "unat idx div 64 < length (heap w (bf_bv bf))"
    using bf_in_range [OF v i] by (simp add: unat_div64)
  show ?thesis
    unfolding bf_reads_set_def bf_getBit_ok [OF v' i]
    by (simp add: bf_setBit_ok [OF v i] l)
qed

lemma bf_Async_eq:
  assumes v: "bf_valid bf w"
  shows "bf_setBitAsync bf idx w = bf_setBit bf idx w"
    and "bf_getBitAsync bf idx w = bf_getBit bf idx w"
proof -
  show "bf_setBitAsync bf idx w = bf_setBit bf idx w"
  proof (cases "bf_size bf - 1 < idx")
    case True
    then show ?thesis by (simp add: bf_setBitAsync_def bf_setBit_def)
  next
    case False
    then have i: "idx \<le> bf_size bf - 1" by simp
    show ?thesis using bf_in_range [OF v i]
      by (simp add: bf_setBitAsync_def bf_setBit_def Let_def)
  qed
  show "bf_getBitAsync bf idx w = bf_getBit bf idx w"
  proof (cases "bf_size bf - 1 < idx")
    case True
    then show ?thesis by (simp add: bf_getBitAsync_def bf_getBit_def)
  next
    case False
    then have i: "idx \<le> bf_size bf - 1" by simp
    show ?thesis using bf_in_range [OF v i]
      by (simp add: bf_getBitAsync_def bf_getBit_def Let_def)
  qed
qed

section \<open>BloomFilter: Insert and Lookup\<close>

lemma bf_Insert_loop_monotone:
  "bf_reads_set bf w p \<Longrightarrow> bf_reads_set bf (snd (bf_Insert_loop bf hs w)) p"
proof (induction hs arbitrary: w)
  case Nil
  then show ?case by simp
next
  case (Cons h hs)
  obtain r w' where s: "bf_setBit bf (h AND (bf_size bf - 1)) w = (r, w')"
    by (cases "bf_setBit bf (h AND (bf_size bf - 1)) w")
  have m: "bf_reads_set bf w' p"
    using bf_setBit_monotone [OF Cons.prems, of "h AND (bf_size bf - 1)"] s by simp
  show ?case using s m Cons.IH [OF m]
    by (auto split: outcome.splits option.splits)
qed

lemma bf_Insert_loop_ok:
  "bf_valid bf w \<Longrightarrow>
   \<exists>w'. bf_Insert_loop bf hs w = (Return None, w') \<and> bf_valid bf w' \<and>
        (\<forall>h \<in> set hs. bf_reads_set bf w' (h AND (bf_size bf - 1)))"
proof (induction hs arbitrary: w)
  case Nil
  then show ?case by simp
next
  case (Cons h hs)
  let ?p = "h AND (bf_size bf - 1)"
  have i: "?p \<le> bf_size bf - 1" by (rule masked_le)
  obtain w1 where s: "bf_setBit bf ?p w = (Return None, w1)"
    using bf_setBit_returns [OF Cons.prems i] by (cases "bf_setBit bf ?p w") simp
  have v1: "bf_valid bf w1" using bf_setBit_valid [OF Cons.prems, of ?p] s by simp
  have r1: "bf_reads_set bf w1 ?p" using bf_setBit_reads [OF Cons.prems i] s by simp
  obtain w' where l: "bf_Insert_loop bf hs w1 = (Return None, w')" and v': "bf_valid bf w'"
    and r': "\<forall>h \<in> set hs. bf_reads_set bf w' (h AND (bf_size bf - 1))"
    using Cons.IH [OF v1] by blast
  have "bf_reads_set bf w' ?p" using bf_Insert_loop_monotone [OF r1, of hs] l by simp
  then show ?case using s l v' r' by simp
qed

lemma bf_Lookup_loop_world: "snd (bf_Lookup_loop bf hs w) = w"
proof (induction hs)
  case Nil
  then show ?case by simp
next
  case (Cons h hs)
  obtain r where g: "bf_getBit bf (h AND (bf_size bf - 1)) w = (r, w)"
    using bf_getBit_world [of bf "h AND (bf_size bf - 1)" w]
    by (cases "bf_getBit bf (h AND (bf_size bf - 1)) w") simp
  show ?case using g Cons.IH by (auto split: outcome.splits prod.splits)
qed

lemma bf_Lookup_loop_true:
  "\<forall>h \<in> set hs. bf_reads_set bf w (h AND (bf_size bf - 1)) \<Longrightarrow>
   bf_Lookup_loop bf hs w = (Return (True, None), w)"
proof (induction hs)
  case Nil
  then show ?case by simp
next
  case (Cons h hs)
  have "fst (bf_getBit bf (h AND (bf_size bf - 1)) w) = Return (True, None)"
    using Cons.prems by (simp add: bf_reads_set_def)
  then have g: "bf_getBit bf (h AND (bf_size bf - 1)) w = (Return (True, None), w)"
    using bf_getBit_world [of bf "h AND (bf_size bf - 1)" w]
    by (cases "bf_getBit bf (h AND (bf_size bf - 1)) w") simp
  show ?case using g Cons by simp
qed

lemma bf_Lookup_loop_no_error:
  "bf_valid bf w \<Longrightarrow> \<exists>b. bf_Lookup_loop bf hs w = (Return (b, None), w)"
proof (induction hs)
  case Nil
  then show ?case by auto
next
  case (Cons h hs)
  have i: "h AND (bf_size bf - 1) \<le> bf_size bf - 1" by (rule masked_le)
  obtain b where g: "bf_getBit bf (h AND (bf_size bf - 1)) w = (Return (b, None), w)"
    using bf_getBit_returns [OF Cons.prems i] by blast
  show ?case using g Cons by auto
qed

lemma bf_Insert_monotone:
  "bf_reads_set bf w p \<Longrightarrow> bf_reads_set bf (snd (bf_Insert H bf key w)) p"
  by (cases "hashEntry H key (bf_hf bf)") (simp_all add: bf_Insert_def bf_Insert_loop_monotone)

lemma bf_Insert_valid:
  "bf_valid bf w \<Longrightarrow> bf_valid bf (snd (bf_Insert H bf key w))"
proof (cases "hashEntry H key (bf_hf bf)")
  case (Return hs)
  assume "bf_valid bf w"
  then show ?thesis using bf_Insert_loop_ok [of bf w hs] Return
    by (auto simp: bf_Insert_def)
next
  case (Panics p)
  assume "bf_valid bf w"
  then show ?thesis using Panics by (simp add: bf_Insert_def)
qed

lemma bf_Insert_no_error:
  "bf_valid bf w \<Longrightarrow> fst (bf_Insert H bf key w) \<noteq> Return (Some e)"
proof (cases "hashEntry H key (bf_hf bf)")
  case (Return hs)
  assume "bf_valid bf w"
  then show ?thesis using bf_Insert_loop_ok [of bf w hs] Return
    by (auto simp: bf_Insert_def)
next
  case (Panics p)
  then show ?thesis by (simp add: bf_Insert_def)
qed

lemma bf_Insert_ok:
  assumes v: "bf_valid bf w" and k: "key \<noteq> []" and h: "0 \<le> bf_hf bf"
  shows "\<exists>w'. bf_Insert H bf key w = (Return None, w') \<and> bf_valid bf w' \<and>
           (0 < bf_hf bf \<longrightarrow> bf_reads_set bf w' (H key AND (bf_size bf - 1)))"
proof -
  have he: "hashEntry H key (bf_hf bf) = Return (replicate (nat (bf_hf bf)) (H key))"
    using k h by (rule hashEntry_nonempty)
  obtain w' where l: "bf_Insert_loop bf (replicate (nat (bf_hf bf)) (H key)) w = (Return None, w')"
    and v': "bf_valid bf w'"
    and r: "\<forall>x \<in> set (replicate (nat (bf_hf bf)) (H key)). bf_reads_set bf w' (x AND (bf_size bf - 1))"
    using bf_Insert_loop_ok [OF v] by blast
  have "0 < bf_hf bf \<longrightarrow> bf_reads_set bf w' (H key AND (bf_size bf - 1))"
    using r by auto
  then show ?thesis using l v' by (simp add: bf_Insert_def he)
qed

lemma bf_Lookup_world: "snd (bf_Lookup H bf key w) = w"
  by (cases "hashEntry H key (bf_hf bf)") (simp_all add: bf_Lookup_def bf_Lookup_loop_world)

lemma bf_Lookup_no_error:
  "bf_valid bf w \<Longrightarrow> fst (bf_Lookup H bf key w) \<noteq> Return (b, Some e)"
proof (cases "hashEntry H key (bf_hf bf)")
  case (Return hs)
  assume "bf_valid bf w"
  then show ?thesis using bf_Lookup_loop_no_error [of bf w hs] Return
    by (auto simp: bf_Lookup_def)
next
  case (Panics p)
  then show ?thesis by (simp add: bf_Lookup_def)
qed

lemma bf_Lookup_total:
  "bf_valid bf w \<Longrightarrow> key \<noteq> [] \<Longrightarrow> 0 \<le> bf_hf bf \<Longrightarrow>
   \<exists>b. bf_Lookup H bf key w = (Return (b, None), w)"
  using bf_Lookup_loop_no_error [of bf w]
  by (simp add: bf_Lookup_def hashEntry_nonempty)

lemma bf_Lookup_true:
  assumes k: "key \<noteq> []" and h: "0 \<le> bf_hf bf"
    and r: "0 < bf_hf bf \<longrightarrow> bf_reads_set bf w (H key AND (bf_size bf - 1))"
  shows "bf_Lookup H bf key w = (Return (True, None), w)"
proof -
  have he: "hashEntry H key (bf_hf bf) = Return (replicate (nat (bf_hf bf)) (H key))"
    using k h by (rule hashEntry_nonempty)
  have "\<forall>x \<in> set (replicate (nat (bf_hf bf)) (H key)). bf_reads_set bf w (x AND (bf_size bf - 1))"
    using r by auto
  then show ?thesis by (simp add: bf_Lookup_def he bf_Lookup_loop_true)
qed

lemma bf_Inserts_ok:
  "bf_valid bf w \<Longrightarrow> 0 \<le> bf_hf bf \<Longrightarrow> \<forall>k \<in> set keys. k \<noteq> [] \<Longrightarrow>
   \<exists>w'. bf_Inserts H bf keys w = (Return None, w') \<and> bf_valid bf w' \<and>
        (0 < bf_hf bf \<longrightarrow> (\<forall>k \<in> set keys. bf_reads_set bf w' (H k AND (bf_size bf - 1)))) \<and>
        (\<forall>p. bf_reads_set bf w p \<longrightarrow> bf_reads_set bf w' p)"
proof (induction keys arbitrary: w)
  case Nil
  then show ?case by simp
next
  case (Cons k ks)
  have k: "k \<noteq> []" and ks: "\<forall>k \<in> set ks. k \<noteq> []" using Cons.prems(3) by simp_all
  obtain w1 where i: "bf_Insert H bf k w = (Return None, w1)" and v1: "bf_valid bf w1"
    and r1: "0 < bf_hf bf \<longrightarrow> bf_reads_set bf w1 (H k AND (bf_size bf - 1))"
    using bf_Insert_ok [OF Cons.prems(1) k Cons.prems(2)] by blast
  have m1: "\<And>p. bf_reads_set bf w p \<Longrightarrow> bf_reads_set bf w1 p"
    using bf_Insert_monotone [of bf w _ H k] i by simp
  obtain w' where l: "bf_Inserts H bf ks w1 = (Return None, w')" and v': "bf_valid bf w'"
    and r': "0 < bf_hf bf \<longrightarrow> (\<forall>k \<in> set ks. bf_reads_set bf w' (H k AND (bf_size bf - 1)))"
    and m': "\<forall>p. bf_reads_set bf w1 p \<longrightarrow> bf_reads_set bf w' p"
    using Cons.IH [OF v1 Cons.prems(2) ks] by blast
  show ?case using i l v' r' m' r1 m1 by auto
qed

section \<open>BloomFilter: the calls that do not lock\<close>

lemma bf_InsertAsync_loop_eq:
  "bf_valid bf w \<Longrightarrow> bf_InsertAsync_loop bf hs w = bf_Insert_loop bf hs w"
proof (induction hs arbitrary: w)
  case Nil
  then show ?case by simp
next
  case (Cons h hs)
  obtain r w' where s: "bf_setBit bf (h AND (bf_size bf - 1)) w = (r, w')"
    by (cases "bf_setBit bf (h AND (bf_size bf - 1)) w")
  have v': "bf_valid bf w'" using bf_setBit_valid [OF Cons.prems, of "h AND (bf_size bf - 1)"] s by simp
  show ?case using s Cons.IH [OF v']
    by (simp add: bf_Async_eq(1) [OF Cons.prems] split: outcome.splits option.splits)
qed

lemma bf_LookupAsync_loop_eq:
  "bf_valid bf w \<Longrightarrow> bf_LookupAsync_loop bf hs w = bf_Lookup_loop bf hs w"
proof (induction hs)
  case Nil
  then show ?case by simp
next
  case (Cons h hs)
  obtain r where g: "bf_getBit bf (h AND (bf_size bf - 1)) w = (r, w)"
    using bf_getBit_world [of bf "h AND (bf_size bf - 1)" w]
    by (cases "bf_getBit bf (h AND (bf_size bf - 1)) w") simp
  show ?case using g Cons
    by (simp add: bf_Async_eq(2) [OF Cons.prems] split: outcome.splits prod.splits)
qed

lemma bf_InsertAsync_eq: "bf_valid bf w \<Longrightarrow> bf_InsertAsync H bf key w = bf_Insert H bf key w"
  by (cases "hashEntry H key (bf_hf bf)")
     (simp_all add: bf_InsertAsync_def bf_Insert_def bf_InsertAsync_loop_eq)

lemma bf_LookupAsync_eq: "bf_valid bf w \<Longrightarrow> bf_LookupAsync H bf key w = bf_Lookup H bf key w"
  by (cases "hashEntry H key (bf_hf bf)")
     (simp_all add: bf_LookupAsync_def bf_Lookup_def bf_LookupAsync_loop_eq)

section \<open>BloomFilter: Write and Load\<close>

lemma bf_reads_set_cong:
  "heap w' (bf_bv bf) = heap w (bf_bv bf) \<Longrightarrow> bf_reads_set bf w' p = bf_reads_set bf w p"
  by (simp add: bf_reads_set_def bf_getBit_def Let_def)

lemma bf_valid_cong:
  "heap w' (bf_bv bf) = heap w (bf_bv bf) \<Longrightarrow> next_ref w \<le> next_ref w' \<Longrightarrow>
   bf_valid bf w \<Longrightarrow> bf_valid bf w'"
  by (simp add: bf_valid_def)

lemma bf_Write_heap: "heap (snd (bf_Write bf f w)) = heap w"
  by (simp add: bf_Write_def Let_def split: outcome.splits)

lemma bf_Write_next_ref: "next_ref (snd (bf_Write bf f w)) = next_ref w"
  by (simp add: bf_Write_def Let_def split: outcome.splits)

lemma bf_Write_monotone:
  "bf_reads_set bf w p \<Longrightarrow> bf_reads_set bf (snd (bf_Write bf f w)) p"
  by (simp add: bf_reads_set_cong [of "snd (bf_Write bf f w)" bf w] bf_Write_heap)

lemma bf_setBit_heap_other:
  "a \<noteq> bf_bv bf \<Longrightarrow> heap (snd (bf_setBit bf idx w)) a = heap w a"
  by (simp add: bf_setBit_def Let_def)

lemma bf_Load_loop_heap_other:
  "a \<noteq> bf_bv bf \<Longrightarrow> heap (snd (bf_Load_loop bf bs i w)) a = heap w a"
proof (induction bs arbitrary: i w)
  case Nil
  then show ?case by simp
next
  case (Cons b bs)
  obtain r w' where s: "bf_setBit bf (of_nat i) w = (r, w')"
    by (cases "bf_setBit bf (of_nat i) w")
  have h: "heap w' a = heap w a"
    using bf_setBit_heap_other [OF Cons.prems, of "of_nat i" w] s by simp
  show ?case using s h Cons.IH [OF Cons.prems]
    by (auto split: outcome.splits)
qed

lemma bf_Load_loop_monotone:
  "bf_reads_set bf w p \<Longrightarrow> bf_reads_set bf (snd (bf_Load_loop bf bs i w)) p"
proof (induction bs arbitrary: i w)
  case Nil
  then show ?case by simp
next
  case (Cons b bs)
  obtain r w' where s: "bf_setBit bf (of_nat i) w = (r, w')"
    by (cases "bf_setBit bf (of_nat i) w")
  have m: "bf_reads_set bf w' p"
    using bf_setBit_monotone [OF Cons.prems, of "of_nat i"] s by simp
  show ?case using s m Cons.IH [OF m] Cons.IH [OF Cons.prems]
    by (auto split: outcome.splits)
qed

lemma bf_Load_loop_result:
  "fst (bf_Load_loop bf bs i w) \<noteq> Return (Some e)"
proof (induction bs arbitrary: i w)
  case Nil
  then show ?case by simp
next
  case (Cons b bs)
  obtain r w' where s: "bf_setBit bf (of_nat i) w = (r, w')"
    by (cases "bf_setBit bf (of_nat i) w")
  show ?case using s Cons.IH [of "Suc i" w'] Cons.IH [of "Suc i" w]
    by (auto split: outcome.splits)
qed

lemma bf_Load_monotone:
  "bf_reads_set bf w p \<Longrightarrow> bf_reads_set bf (snd (bf_Load bf f w)) p"
  by (simp add: bf_Load_def Let_def bf_Load_loop_monotone split: option.splits)

lemma bf_Load_mismatch:
  "files w f = Some content \<Longrightarrow>
   bf_size bf \<noteq> word_of_int (int (length (ReadBytes content 0x0A)) - 1) \<Longrightarrow>
   bf_Load bf f w =
     (Return (Some (SizeMismatch (int (length (ReadBytes content 0x0A)) - 1) (bf_size bf))), w)"
  by (simp add: bf_Load_def Let_def)

section \<open>NaiveStripedBloomFilter: single positions\<close>

lemma nsbf_in_range:
  assumes v: "nsbf_valid bf w" and i: "idx \<le> nsbf_size bf - 1"
  shows "nsbf_shardLen bf \<noteq> 0" and "unat (idx div nsbf_shardLen bf) < nsbf_mutArr bf"
    and "unat idx < length (heap w (nsbf_bv bf))"
proof -
  have sz: "64 \<le> nsbf_size bf"
    and s0: "nsbf_shards bf \<noteq> 0" and le: "nsbf_shards bf \<le> nsbf_size bf div 64"
    and m: "nsbf_size bf mod nsbf_shards bf = 0"
    and sl: "nsbf_shardLen bf = nsbf_size bf div nsbf_shards bf"
    and ma: "nsbf_mutArr bf = unat (nsbf_shards bf)"
    and len: "length (heap w (nsbf_bv bf)) = unat (nsbf_size bf)"
    using v by (simp_all add: nsbf_valid_def)
  show "nsbf_shardLen bf \<noteq> 0" unfolding sl by (rule word_shard_less(1) [OF sz s0 le m i])
  show "unat (idx div nsbf_shardLen bf) < nsbf_mutArr bf"
    unfolding sl ma by (rule word_shard_less(2) [OF sz s0 le m i])
  show "unat idx < length (heap w (nsbf_bv bf))"
    unfolding len by (rule le_pred_unat [OF sz i])
qed

lemma nsbf_setByte_ok:
  "nsbf_valid bf w \<Longrightarrow> idx \<le> nsbf_size bf - 1 \<Longrightarrow>
   nsbf_setByte bf idx w = (Return None,
      w\<lparr>heap := (heap w)(nsbf_bv bf := (heap w (nsbf_bv bf))[unat idx := 1])\<rparr>)"
  using nsbf_in_range [of bf w idx]
  by (simp add: nsbf_setByte_def Let_def not_less [symmetric] del: not_less)

lemma nsbf_getByte_ok:
  "nsbf_valid bf w \<Longrightarrow> idx \<le> nsbf_size bf - 1 \<Longrightarrow>
   nsbf_getByte bf idx w = (Return (heap w (nsbf_bv bf) ! unat idx = 1, None), w)"
  using nsbf_in_range [of bf w idx]
  by (simp add: nsbf_getByte_def Let_def)

lemma nsbf_setByte_returns:
  "nsbf_valid bf w \<Longrightarrow> idx \<le> nsbf_size bf - 1 \<Longrightarrow> fst (nsbf_setByte bf idx w) = Return None"
  by (simp add: nsbf_setByte_ok)

lemma nsbf_getByte_returns:
  "nsbf_valid bf w \<Longrightarrow> idx \<le> nsbf_size bf - 1 \<Longrightarrow> \<exists>b. nsbf_getByte bf idx w = (Return (b, None), w)"
  by (simp add: nsbf_getByte_ok)

lemma nsbf_getByte_world: "snd (nsbf_getByte bf idx w) = w"
  by (simp add: nsbf_getByte_def Let_def)

lemma nsbf_setByte_cases:
  "nsbf_setByte bf idx w = (r, w') \<Longrightarrow>
   w' = w \<or> (\<exists>i. i < length (heap w (nsbf_bv bf)) \<and>
      w' = w\<lparr>heap := (heap w)(nsbf_bv bf := (heap w (nsbf_bv bf))[i := 1])\<rparr>)"
  by (auto simp: nsbf_setByte_def Let_def split: if_splits)

lemma nsbf_reads_set_upd:
  "nsbf_reads_set bf w p \<Longrightarrow> i < length (heap w (nsbf_bv bf)) \<Longrightarrow>
   nsbf_reads_set bf (w\<lparr>heap := (heap w)(nsbf_bv bf := (heap w (nsbf_bv bf))[i := 1])\<rparr>) p"
  by (cases "unat p = i")
     (auto simp: nsbf_reads_set_def nsbf_getByte_def Let_def split: if_splits)

lemma nsbf_setByte_monotone:
  "nsbf_reads_set bf w p \<Longrightarrow> nsbf_reads_set bf (snd (nsbf_setByte bf idx w)) p"
  using nsbf_setByte_cases [of bf idx w "fst (nsbf_setByte bf idx w)" "snd (nsbf_setByte bf idx w)"]
  by (auto simp: nsbf_reads_set_upd)

lemma nsbf_setByte_valid:
  "nsbf_valid bf w \<Longrightarrow> nsbf_valid bf (snd (nsbf_setByte bf idx w))"
  using nsbf_setByte_cases [of bf idx w "fst (nsbf_setByte bf idx w)" "snd (nsbf_setByte bf idx w)"]
  by (auto simp: nsbf_valid_def)

lemma nsbf_setByte_reads:
  "nsbf_valid bf w \<Longrightarrow> idx \<le> nsbf_size bf - 1 \<Longrightarrow> nsbf_reads_set bf (snd (nsbf_setByte bf idx w)) idx"
proof -
  assume v: "nsbf_valid bf w" and i: "idx \<le> nsbf_size bf - 1"
  have v': "nsbf_valid bf (snd (nsbf_setByte bf idx w))" using v by (rule nsbf_setByte_valid)
  have l: "unat idx < length (heap w (nsbf_bv bf))"
    using nsbf_in_range(3) [OF v i] .
  show ?thesis
    unfolding nsbf_reads_set_def nsbf_getByte_ok [OF v' i]
    by (simp add: nsbf_setByte_ok [OF v i] l)
qed

lemma nsbf_Async_eq:
  assumes v: "nsbf_valid bf w"
  shows "nsbf_setByteAsync bf idx w = nsbf_setByte bf idx w"
    and "nsbf_getByteAsync bf idx w = nsbf_getByte bf idx w"
proof -
  show "nsbf_setByteAsync bf idx w = nsbf_setByte bf idx w"
  proof (cases "nsbf_size bf - 1 < idx")
    case True
    then show ?thesis by (simp add: nsbf_setByteAsync_def nsbf_setByte_def)
  next
    case False
    then have i: "idx \<le> nsbf_size bf - 1" by simp
    show ?thesis using nsbf_in_range [OF v i]
      by (simp add: nsbf_setByteAsync_def nsbf_setByte_def Let_def)
  qed
  show "nsbf_getByteAsync bf idx w = nsbf_getByte bf idx w"
  proof (cases "nsbf_size bf - 1 < idx")
    case True
    then show ?thesis by (simp add: nsbf_getByteAsync_def nsbf_getByte_def)
  next
    case False
    then have i: "idx \<le> nsbf_size bf - 1" by simp
    show ?thesis using nsbf_in_range [OF v i]
      by (simp add: nsbf_getByteAsync_def nsbf_getByte_def Let_def)
  qed
qed

section \<open>NaiveStripedBloomFilter: Insert and Lookup\<close>

lemma nsbf_Insert_loop_monotone:
  "nsbf_reads_set bf w p \<Longrightarrow> nsbf_reads_set bf (snd (nsbf_Insert_loop bf hs w)) p"
proof (induction hs arbitrary: w)
  case Nil
  then show ?case by simp
next
  case (Cons h hs)
  obtain r w' where s: "nsbf_setByte bf (h AND (nsbf_size bf - 1)) w = (r, w')"
    by (cases "nsbf_setByte bf (h AND (nsbf_size bf - 1)) w")
  have m: "nsbf_reads_set bf w' p"
    using nsbf_setByte_monotone [OF Cons.prems, of "h AND (nsbf_size bf - 1)"] s by simp
  show ?case using s m Cons.IH [OF m]
    by (auto split: outcome.splits option.splits)
qed

lemma nsbf_Insert_loop_ok:
  "nsbf_valid bf w \<Longrightarrow>
   \<exists>w'. nsbf_Insert_loop bf hs w = (Return None, w') \<and> nsbf_valid bf w' \<and>
        (\<forall>h \<in> set hs. nsbf_reads_set bf w' (h AND (nsbf_size bf - 1)))"
proof (induction hs arbitrary: w)
  case Nil
  then show ?case by simp
next
  case (Cons h hs)
  let ?p = "h AND (nsbf_size bf - 1)"
  have i: "?p \<le> nsbf_size bf - 1" by (rule masked_le)
  obtain w1 where s: "nsbf_setByte bf ?p w = (Return None, w1)"
    using nsbf_setByte_returns [OF Cons.prems i] by (cases "nsbf_setByte bf ?p w") simp
  have v1: "nsbf_valid bf w1" using nsbf_setByte_valid [OF Cons.prems, of ?p] s by simp
  have r1: "nsbf_reads_set bf w1 ?p" using nsbf_setByte_reads [OF Cons.prems i] s by simp
  obtain w' where l: "nsbf_Insert_loop bf hs w1 = (Return None, w')" and v': "nsbf_valid bf w'"
    and r': "\<forall>h \<in> set hs. nsbf_reads_set bf w' (h AND (nsbf_size bf - 1))"
    using Cons.IH [OF v1] by blast
  have "nsbf_reads_set bf w' ?p" using nsbf_Insert_loop_monotone [OF r1, of hs] l by simp
  then show ?case using s l v' r' by simp
qed

lemma nsbf_Lookup_loop_world: "snd (nsbf_Lookup_loop bf hs w) = w"
proof (induction hs)
  case Nil
  then show ?case by simp
next
  case (Cons h hs)
  obtain r where g: "nsbf_getByte bf (h AND (nsbf_size bf - 1)) w = (r, w)"
    using nsbf_getByte_world [of bf "h AND (nsbf_size bf - 1)" w]
    by (cases "nsbf_getByte bf (h AND (nsbf_size bf - 1)) w") simp
  show ?case using g Cons.IH by (auto split: outcome.splits prod.splits)
qed

lemma nsbf_Lookup_loop_true:
  "\<forall>h \<in> set hs. nsbf_reads_set bf w (h AND (nsbf_size bf - 1)) \<Longrightarrow>
   nsbf_Lookup_loop bf hs w = (Return (True, None), w)"
proof (induction hs)
  case Nil
  then show ?case by simp
next
  case (Cons h hs)
  have "fst (nsbf_getByte bf (h AND (nsbf_size bf - 1)) w) = Return (True, None)"
    using Cons.prems by (simp add: nsbf_reads_set_def)
  then have g: "nsbf_getByte bf (h AND (nsbf_size bf - 1)) w = (Return (True, None), w)"
    using nsbf_getByte_world [of bf "h AND (nsbf_size bf - 1)" w]
    by (cases "nsbf_getByte bf (h AND (nsbf_size bf - 1)) w") simp
  show ?case using g Cons by simp
qed

lemma nsbf_Lookup_loop_no_error:
  "nsbf_valid bf w \<Longrightarrow> \<exists>b. nsbf_Lookup_loop bf hs w = (Return (b, None), w)"
proof (induction hs)
  case Nil
  then show ?case by auto
next
  case (Cons h hs)
  have i: "h AND (nsbf_size bf - 1) \<le> nsbf_size bf - 1" by (rule masked_le)
  obtain b where g: "nsbf_getByte bf (h AND (nsbf_size bf - 1)) w = (Return (b, None), w)"
    using nsbf_getByte_returns [OF Cons.prems i] by blast
  show ?case using g Cons by auto
qed

lemma nsbf_Insert_monotone:
  "nsbf_reads_set bf w p \<Longrightarrow> nsbf_reads_set bf (snd (nsbf_Insert H bf key w)) p"
  by (cases "hashEntry H key (nsbf_hf bf)") (simp_all add: nsbf_Insert_def nsbf_Insert_loop_monotone)

lemma nsbf_Insert_valid:
  "nsbf_valid bf w \<Longrightarrow> nsbf_valid bf (snd (nsbf_Insert H bf key w))"
proof (cases "hashEntry H key (nsbf_hf bf)")
  case (Return hs)
  assume "nsbf_valid bf w"
  then show ?thesis using nsbf_Insert_loop_ok [of bf w hs] Return
    by (auto simp: nsbf_Insert_def)
next
  case (Panics p)
  assume "nsbf_valid bf w"
  then show ?thesis using Panics by (simp add: nsbf_Insert_def)
qed

lemma nsbf_Insert_no_error:
  "nsbf_valid bf w \<Longrightarrow> fst (nsbf_Insert H bf key w) \<noteq> Return (Some e)"
proof (cases "hashEntry H key (nsbf_hf bf)")
  case (Return hs)
  assume "nsbf_valid bf w"
  then show ?thesis using nsbf_Insert_loop_ok [of bf w hs] Return
    by (auto simp: nsbf_Insert_def)
next
  case (Panics p)
  then show ?thesis by (simp add: nsbf_Insert_def)
qed

lemma nsbf_Insert_ok:
  assumes v: "nsbf_valid bf w" and k: "key \<noteq> []" and h: "0 \<le> nsbf_hf bf"
  shows "\<exists>w'. nsbf_Insert H bf key w = (Return None, w') \<and> nsbf_valid bf w' \<and>
           (0 < nsbf_hf bf \<longrightarrow> nsbf_reads_set bf w' (H key AND (nsbf_size bf - 1)))"
proof -
  have he: "hashEntry H key (nsbf_hf bf) = Return (replicate (nat (nsbf_hf bf)) (H key))"
    using k h by (rule hashEntry_nonempty)
  obtain w' where l: "nsbf_Insert_loop bf (replicate (nat (nsbf_hf bf)) (H key)) w = (Return None, w')"
    and v': "nsbf_valid bf w'"
    and r: "\<forall>x \<in> set (replicate (nat (nsbf_hf bf)) (H key)). nsbf_reads_set bf w' (x AND (nsbf_size bf - 1))"
    using nsbf_Insert_loop_ok [OF v] by blast
  have "0 < nsbf_hf bf \<longrightarrow> nsbf_reads_set bf w' (H key AND (nsbf_size bf - 1))"
    using r by auto
  then show ?thesis using l v' by (simp add: nsbf_Insert_def he)
qed

lemma nsbf_Lookup_world: "snd (nsbf_Lookup H bf key w) = w"
  by (cases "hashEntry H key (nsbf_hf bf)") (simp_all add: nsbf_Lookup_def nsbf_Lookup_loop_world)

lemma nsbf_Lookup_no_error:
  "nsbf_valid bf w \<Longrightarrow> fst (nsbf_Lookup H bf key w) \<noteq> Return (b, Some e)"
proof (cases "hashEntry H key (nsbf_hf bf)")
  case (Return hs)
  assume "nsbf_valid bf w"
  then show ?thesis using nsbf_Lookup_loop_no_error [of bf w hs] Return
    by (auto simp: nsbf_Lookup_def)
next
  case (Panics p)
  then show ?thesis by (simp add: nsbf_Lookup_def)
qed

lemma nsbf_Lookup_total:
  "nsbf_valid bf w \<Longrightarrow> key \<noteq> [] \<Longrightarrow> 0 \<le> nsbf_hf bf \<Longrightarrow>
   \<exists>b. nsbf_Lookup H bf key w = (Return (b, None), w)"
  using nsbf_Lookup_loop_no_error [of bf w]
  by (simp add: nsbf_Lookup_def hashEntry_nonempty)

lemma nsbf_Lookup_true:
  assumes k: "key \<noteq> []" and h: "0 \<le> nsbf_hf bf"
    and r: "0 < nsbf_hf bf \<longrightarrow> nsbf_reads_set bf w (H key AND (nsbf_size bf - 1))"
  shows "nsbf_Lookup H bf key w = (Return (True, None), w)"
proof -
  have he: "hashEntry H key (nsbf_hf bf) = Return (replicate (nat (nsbf_hf bf)) (H key))"
    using k h by (rule hashEntry_nonempty)
  have "\<forall>x \<in> set (replicate (nat (nsbf_hf bf)) (H key)). nsbf_reads_set bf w (x AND (nsbf_size bf - 1))"
    using r by auto
  then show ?thesis by (simp add: nsbf_Lookup_def he nsbf_Lookup_loop_true)
qed

lemma nsbf_Inserts_ok:
  "nsbf_valid bf w \<Longrightarrow> 0 \<le> nsbf_hf bf \<Longrightarrow> \<forall>k \<in> set keys. k \<noteq> [] \<Longrightarrow>
   \<exists>w'. nsbf_Inserts H bf keys w = (Return None, w') \<and> nsbf_valid bf w' \<and>
        (0 < nsbf_hf bf \<longrightarrow> (\<forall>k \<in> set keys. nsbf_reads_set bf w' (H k AND (nsbf_size bf - 1)))) \<and>
        (\<forall>p. nsbf_reads_set bf w p \<longrightarrow> nsbf_reads_set bf w' p)"
proof (induction keys arbitrary: w)
  case Nil
  then show ?case by simp
next
  case (Cons k ks)
  have k: "k \<noteq> []" and ks: "\<forall>k \<in> set ks. k \<noteq> []" using Cons.prems(3) by simp_all
  obtain w1 where i: "nsbf_Insert H bf k w = (Return None, w1)" and v1: "nsbf_valid bf w1"
    and r1: "0 < nsbf_hf bf \<longrightarrow> nsbf_reads_set bf w1 (H k AND (nsbf_size bf - 1))"
    using nsbf_Insert_ok [OF Cons.prems(1) k Cons.prems(2)] by blast
  have m1: "\<And>p. nsbf_reads_set bf w p \<Longrightarrow> nsbf_reads_set bf w1 p"
    using nsbf_Insert_monotone [of bf w _ H k] i by simp
  obtain w' where l: "nsbf_Inserts H bf ks w1 = (Return None, w')" and v': "nsbf_valid bf w'"
    and r': "0 < nsbf_hf bf \<longrightarrow> (\<forall>k \<in> set ks. nsbf_reads_set bf w' (H k AND (nsbf_size bf - 1)))"
    and m': "\<forall>p. nsbf_reads_set bf w1 p \<longrightarrow> nsbf_reads_set bf w' p"
    using Cons.IH [OF v1 Cons.prems(2) ks] by blast
  show ?case using i l v' r' m' r1 m1 by auto
qed

section \<open>NaiveStripedBloomFilter: the calls that do not lock\<close>

lemma nsbf_InsertAsync_loop_eq:
  "nsbf_valid bf w \<Longrightarrow> nsbf_InsertAsync_loop bf hs w = nsbf_Insert_loop bf hs w"
proof (induction hs arbitrary: w)
  case Nil
  then show ?case by simp
next
  case (Cons h hs)
  obtain r w' where s: "nsbf_setByte bf (h AND (nsbf_size bf - 1)) w = (r, w')"
    by (cases "nsbf_setByte bf (h AND (nsbf_size bf - 1)) w")
  have v': "nsbf_valid bf w'" using nsbf_setByte_valid [OF Cons.prems, of "h AND (nsbf_size bf - 1)"] s by simp
  show ?case using s Cons.IH [OF v']
    by (simp add: nsbf_Async_eq(1) [OF Cons.prems] split: outcome.splits option.splits)
qed

lemma nsbf_LookupAsync_loop_eq:
  "nsbf_valid bf w \<Longrightarrow> nsbf_LookupAsync_loop bf hs w = nsbf_Lookup_loop bf hs w"
proof (induction hs)
  case Nil
  then show ?case by simp
next
  case (Cons h hs)
  obtain r where g: "nsbf_getByte bf (h AND (nsbf_size bf - 1)) w = (r, w)"
    using nsbf_getByte_world [of bf "h AND (nsbf_size bf - 1)" w]
    by (cases "nsbf_getByte bf (h AND (nsbf_size bf - 1)) w") simp
  show ?case using g Cons
    by (simp add: nsbf_Async_eq(2) [OF Cons.prems] split: outcome.splits prod.splits)
qed

lemma nsbf_InsertAsync_eq: "nsbf_valid bf w \<Longrightarrow> nsbf_InsertAsync H bf key w = nsbf_Insert H bf key w"
  by (cases "hashEntry H key (nsbf_hf bf)")
     (simp_all add: nsbf_InsertAsync_def nsbf_Insert_def nsbf_InsertAsync_loop_eq)

lemma nsbf_LookupAsync_eq: "nsbf_valid bf w \<Longrightarrow> nsbf_LookupAsync H bf key w = nsbf_Lookup H bf key w"
  by (cases "hashEntry H key (nsbf_hf bf)")
     (simp_all add: nsbf_LookupAsync_def nsbf_Lookup_def nsbf_LookupAsync_loop_eq)

section \<open>NaiveStripedBloomFilter: Write and Load\<close>

lemma nsbf_reads_set_cong:
  "heap w' (nsbf_bv bf) = heap w (nsbf_bv bf) \<Longrightarrow> nsbf_reads_set bf w' p = nsbf_reads_set bf w p"
  by (simp add: nsbf_reads_set_def nsbf_getByte_def Let_def)

lemma nsbf_valid_cong:
  "heap w' (nsbf_bv bf) = heap w (nsbf_bv bf) \<Longrightarrow> next_ref w \<le> next_ref w' \<Longrightarrow>
   nsbf_valid bf w \<Longrightarrow> nsbf_valid bf w'"
  by (simp add: nsbf_valid_def)

lemma nsbf_Write_heap: "heap (snd (nsbf_Write bf f w)) = heap w"
  by (simp add: nsbf_Write_def Let_def split: outcome.splits)

lemma nsbf_Write_next_ref: "next_ref (snd (nsbf_Write bf f w)) = next_ref w"
  by (simp add: nsbf_Write_def Let_def split: outcome.splits)

lemma nsbf_Write_monotone:
  "nsbf_reads_set bf w p \<Longrightarrow> nsbf_reads_set bf (snd (nsbf_Write bf f w)) p"
  by (simp add: nsbf_reads_set_cong [of "snd (nsbf_Write bf f w)" bf w] nsbf_Write_heap)

lemma nsbf_setByte_heap_other:
  "a \<noteq> nsbf_bv bf \<Longrightarrow> heap (snd (nsbf_setByte bf idx w)) a = heap w a"
  by (simp add: nsbf_setByte_def Let_def)

lemma nsbf_Load_loop_heap_other:
  "a \<noteq> nsbf_bv bf \<Longrightarrow> heap (snd (nsbf_Load_loop bf bs i w)) a = heap w a"
proof (induction bs arbitrary: i w)
  case Nil
  then show ?case by simp
next
  case (Cons b bs)
  obtain r w' where s: "nsbf_setByte bf (of_nat i) w = (r, w')"
    by (cases "nsbf_setByte bf (of_nat i) w")
  have h: "heap w' a = heap w a"
    using nsbf_setByte_heap_other [OF Cons.prems, of "of_nat i" w] s by simp
  show ?case using s h Cons.IH [OF Cons.prems]
    by (auto split: outcome.splits)
qed

lemma nsbf_Load_loop_monotone:
  "nsbf_reads_set bf w p \<Longrightarrow> nsbf_reads_set bf (snd (nsbf_Load_loop bf bs i w)) p"
proof (induction bs arbitrary: i w)
  case Nil
  then show ?case by simp
next
  case (Cons b bs)
  obtain r w' where s: "nsbf_setByte bf (of_nat i) w = (r, w')"
    by (cases "nsbf_setByte bf (of_nat i) w")
  have m: "nsbf_reads_set bf w' p"
    using nsbf_setByte_monotone [OF Cons.prems, of "of_nat i"] s by simp
  show ?case using s m Cons.IH [OF m] Cons.IH [OF Cons.prems]
    by (auto split: outcome.splits)
qed

lemma nsbf_Load_loop_result:
  "fst (nsbf_Load_loop bf bs i w) \<noteq> Return (Some e)"
proof (induction bs arbitrary: i w)
  case Nil
  then show ?case by simp
next
  case (Cons b bs)
  obtain r w' where s: "nsbf_setByte bf (of_nat i) w = (r, w')"
    by (cases "nsbf_setByte bf (of_nat i) w")
  show ?case using s Cons.IH [of "Suc i" w'] Cons.IH [of "Suc i" w]
    by (auto split: outcome.splits)
qed

lemma nsbf_Load_monotone:
  "nsbf_reads_set bf w p \<Longrightarrow> nsbf_reads_set bf (snd (nsbf_Load bf f w)) p"
  by (simp add: nsbf_Load_def Let_def nsbf_Load_loop_monotone split: option.splits)

lemma nsbf_Load_mismatch:
  "files w f = Some content \<Longrightarrow>
   nsbf_size bf \<noteq> word_of_int (int (length (ReadBytes content 0x0A)) - 1) \<Longrightarrow>
   nsbf_Load bf f w =
     (Return (Some (SizeMismatch (int (length (ReadBytes content 0x0A)) - 1) (nsbf_size bf))), w)"
  by (simp add: nsbf_Load_def Let_def)

section \<open>NaiveBloomFilter: single positions\<close>

lemma nbf_in_range:
  assumes v: "nbf_valid bf w" and i: "idx \<le> nbf_size bf - 1"
  shows "unat idx < length (heap w (nbf_bv bf))"
    and "\<not> int (length (heap w (nbf_bv bf))) \<le> sint idx" and "\<not> nbf_size bf \<le> idx"
proof -
  have sz: "64 \<le> nbf_size bf" and nn: "0 \<le> sint (nbf_size bf)"
    and len: "length (heap w (nbf_bv bf)) = unat (nbf_size bf)"
    using v by (simp_all add: nbf_valid_def)
  have l: "unat idx < unat (nbf_size bf)" by (rule le_pred_unat [OF sz i])
  show "unat idx < length (heap w (nbf_bv bf))" unfolding len by (rule l)
  have "unat (nbf_size bf) < 2 ^ 63" using sint_nonneg [OF nn] by simp
  then have "unat idx < 2 ^ 63" using l by simp
  then have si: "sint idx = int (unat idx)" by (rule sint_small)
  have "int (unat idx) < int (unat (nbf_size bf))" using l by (simp only: of_nat_less_iff)
  then show "\<not> int (length (heap w (nbf_bv bf))) \<le> sint idx"
    unfolding len si by (simp only: not_le)
  show "\<not> nbf_size bf \<le> idx" using l by (simp add: word_le_nat_alt)
qed

lemma nbf_setByte_ok:
  "nbf_valid bf w \<Longrightarrow> idx \<le> nbf_size bf - 1 \<Longrightarrow>
   nbf_setByte bf idx w = (Return None,
      w\<lparr>heap := (heap w)(nbf_bv bf := (heap w (nbf_bv bf))[unat idx := 1])\<rparr>)"
  using nbf_in_range [of bf w idx]
  by (simp add: nbf_setByte_def Let_def)

lemma nbf_getByte_ok:
  "nbf_valid bf w \<Longrightarrow> idx \<le> nbf_size bf - 1 \<Longrightarrow>
   nbf_getByte bf idx w = (Return (heap w (nbf_bv bf) ! unat idx = 1, None), w)"
  using nbf_in_range [of bf w idx]
  by (simp add: nbf_getByte_def Let_def)

lemma nbf_setByte_returns:
  "nbf_valid bf w \<Longrightarrow> idx \<le> nbf_size bf - 1 \<Longrightarrow> fst (nbf_setByte bf idx w) = Return None"
  by (simp add: nbf_setByte_ok)

lemma nbf_getByte_returns:
  "nbf_valid bf w \<Longrightarrow> idx \<le> nbf_size bf - 1 \<Longrightarrow> \<exists>b. nbf_getByte bf idx w = (Return (b, None), w)"
  by (simp add: nbf_getByte_ok)

lemma nbf_getByte_world: "snd (nbf_getByte bf idx w) = w"
  by (simp add: nbf_getByte_def Let_def)

lemma nbf_setByte_cases:
  "nbf_setByte bf idx w = (r, w') \<Longrightarrow>
   w' = w \<or> (\<exists>i. i < length (heap w (nbf_bv bf)) \<and>
      w' = w\<lparr>heap := (heap w)(nbf_bv bf := (heap w (nbf_bv bf))[i := 1])\<rparr>)"
  by (auto simp: nbf_setByte_def Let_def split: if_splits)

lemma nbf_reads_set_upd:
  "nbf_reads_set bf w p \<Longrightarrow> i < length (heap w (nbf_bv bf)) \<Longrightarrow>
   nbf_reads_set bf (w\<lparr>heap := (heap w)(nbf_bv bf := (heap w (nbf_bv bf))[i := 1])\<rparr>) p"
  by (cases "unat p = i")
     (auto simp: nbf_reads_set_def nbf_getByte_def Let_def split: if_splits)

lemma nbf_setByte_monotone:
  "nbf_reads_set bf w p \<Longrightarrow> nbf_reads_set bf (snd (nbf_setByte bf idx w)) p"
  using nbf_setByte_cases [of bf idx w "fst (nbf_setByte bf idx w)" "snd (nbf_setByte bf idx w)"]
  by (auto simp: nbf_reads_set_upd)

lemma nbf_setByte_valid:
  "nbf_valid bf w \<Longrightarrow> nbf_valid bf (snd (nbf_setByte bf idx w))"
  using nbf_setByte_cases [of bf idx w "fst (nbf_setByte bf idx w)" "snd (nbf_setByte bf idx w)"]
  by (auto simp: nbf_valid_def)

lemma nbf_setByte_reads:
  "nbf_valid bf w \<Longrightarrow> idx \<le> nbf_size bf - 1 \<Longrightarrow> nbf_reads_set bf (snd (nbf_setByte bf idx w)) idx"
proof -
  assume v: "nbf_valid bf w" and i: "idx \<le> nbf_size bf - 1"
  have v': "nbf_valid bf (snd (nbf_setByte bf idx w))" using v by (rule nbf_setByte_valid)
  have l: "unat idx < length (heap w (nbf_bv bf))"
    using nbf_in_range(1) [OF v i] .
  show ?thesis
    unfolding nbf_reads_set_def nbf_getByte_ok [OF v' i]
    by (simp add: nbf_setByte_ok [OF v i] l)
qed

lemma nbf_Async_eq:
  assumes v: "nbf_valid bf w"
  shows "nbf_setByteAsync bf idx w = nbf_setByte bf idx w"
    and "nbf_getByteAsync bf idx w = nbf_getByte bf idx w"
  by (simp_all add: nbf_setByteAsync_def nbf_setByte_def nbf_getByteAsync_def nbf_getByte_def)

section \<open>NaiveBloomFilter: Insert and Lookup\<close>

lemma nbf_Insert_loop_monotone:
  "nbf_reads_set bf w p \<Longrightarrow> nbf_reads_set bf (snd (nbf_Insert_loop bf hs w)) p"
proof (induction hs arbitrary: w)
  case Nil
  then show ?case by simp
next
  case (Cons h hs)
  obtain r w' where s: "nbf_setByte bf (h AND (nbf_size bf - 1)) w = (r, w')"
    by (cases "nbf_setByte bf (h AND (nbf_size bf - 1)) w")
  have m: "nbf_reads_set bf w' p"
    using nbf_setByte_monotone [OF Cons.prems, of "h AND (nbf_size bf - 1)"] s by simp
  show ?case using s m Cons.IH [OF m]
    by (auto split: outcome.splits option.splits)
qed

lemma nbf_Insert_loop_ok:
  "nbf_valid bf w \<Longrightarrow>
   \<exists>w'. nbf_Insert_loop bf hs w = (Return None, w') \<and> nbf_valid bf w' \<and>
        (\<forall>h \<in> set hs. nbf_reads_set bf w' (h AND (nbf_size bf - 1)))"
proof (induction hs arbitrary: w)
  case Nil
  then show ?case by simp
next
  case (Cons h hs)
  let ?p = "h AND (nbf_size bf - 1)"
  have i: "?p \<le> nbf_size bf - 1" by (rule masked_le)
  obtain w1 where s: "nbf_setByte bf ?p w = (Return None, w1)"
    using nbf_setByte_returns [OF Cons.prems i] by (cases "nbf_setByte bf ?p w") simp
  have v1: "nbf_valid bf w1" using nbf_setByte_valid [OF Cons.prems, of ?p] s by simp
  have r1: "nbf_reads_set bf w1 ?p" using nbf_setByte_reads [OF Cons.prems i] s by simp
  obtain w' where l: "nbf_Insert_loop bf hs w1 = (Return None, w')" and v': "nbf_valid bf w'"
    and r': "\<forall>h \<in> set hs. nbf_reads_set bf w' (h AND (nbf_size bf - 1))"
    using Cons.IH [OF v1] by blast
  have "nbf_reads_set bf w' ?p" using nbf_Insert_loop_monotone [OF r1, of hs] l by simp
  then show ?case using s l v' r' by simp
qed

lemma nbf_Lookup_loop_world: "snd (nbf_Lookup_loop bf hs w) = w"
proof (induction hs)
  case Nil
  then show ?case by simp
next
  case (Cons h hs)
  obtain r where g: "nbf_getByte bf (h AND (nbf_size bf - 1)) w = (r, w)"
    using nbf_getByte_world [of bf "h AND (nbf_size bf - 1)" w]
    by (cases "nbf_getByte bf (h AND (nbf_size bf - 1)) w") simp
  show ?case using g Cons.IH by (auto split: outcome.splits prod.splits)
qed

lemma nbf_Lookup_loop_true:
  "\<forall>h \<in> set hs. nbf_reads_set bf w (h AND (nbf_size bf - 1)) \<Longrightarrow>
   nbf_Lookup_loop bf hs w = (Return (True, None), w)"
proof (induction hs)
  case Nil
  then show ?case by simp
next
  case (Cons h hs)
  have "fst (nbf_getByte bf (h AND (nbf_size bf - 1)) w) = Return (True, None)"
    using Cons.prems by (simp add: nbf_reads_set_def)
  then have g: "nbf_getByte bf (h AND (nbf_size bf - 1)) w = (Return (True, None), w)"
    using nbf_getByte_world [of bf "h AND (nbf_size bf - 1)" w]
    by (cases "nbf_getByte bf (h AND (nbf_size bf - 1)) w") simp
  show ?case using g Cons by simp
qed

lemma nbf_Lookup_loop_no_error:
  "nbf_valid bf w \<Longrightarrow> \<exists>b. nbf_Lookup_loop bf hs w = (Return (b, None), w)"
proof (induction hs)
  case Nil
  then show ?case by auto
next
  case (Cons h hs)
  have i: "h AND (nbf_size bf - 1) \<le> nbf_size bf - 1" by (rule masked_le)
  obtain b where g: "nbf_getByte bf (h AND (nbf_size bf - 1)) w = (Return (b, None), w)"
    using nbf_getByte_returns [OF Cons.prems i] by blast
  show ?case using g Cons by auto
qed

lemma nbf_Insert_monotone:
  "nbf_reads_set bf w p \<Longrightarrow> nbf_reads_set bf (snd (nbf_Insert H bf key w)) p"
  by (cases "hashEntry H key (nbf_hf bf)") (simp_all add: nbf_Insert_def nbf_Insert_loop_monotone)

lemma nbf_Insert_valid:
  "nbf_valid bf w \<Longrightarrow> nbf_valid bf (snd (nbf_Insert H bf key w))"
proof (cases "hashEntry H key (nbf_hf bf)")
  case (Return hs)
  assume "nbf_valid bf w"
  then show ?thesis using nbf_Insert_loop_ok [of bf w hs] Return
    by (auto simp: nbf_Insert_def)
next
  case (Panics p)
  assume "nbf_valid bf w"
  then show ?thesis using Panics by (simp add: nbf_Insert_def)
qed

lemma nbf_Insert_no_error:
  "nbf_valid bf w \<Longrightarrow> fst (nbf_Insert H bf key w) \<noteq> Return (Some e)"
proof (cases "hashEntry H key (nbf_hf bf)")
  case (Return hs)
  assume "nbf_valid bf w"
  then show ?thesis using nbf_Insert_loop_ok [of bf w hs] Return
    by (auto simp: nbf_Insert_def)
next
  case (Panics p)
  then show ?thesis by (simp add: nbf_Insert_def)
qed

lemma nbf_Insert_ok:
  assumes v: "nbf_valid bf w" and k: "key \<noteq> []" and h: "0 \<le> nbf_hf bf"
  shows "\<exists>w'. nbf_Insert H bf key w = (Return None, w') \<and> nbf_valid bf w' \<and>
           (0 < nbf_hf bf \<longrightarrow> nbf_reads_set bf w' (H key AND (nbf_size bf - 1)))"
proof -
  have he: "hashEntry H key (nbf_hf bf) = Return (replicate (nat (nbf_hf bf)) (H key))"
    using k h by (rule hashEntry_nonempty)
  obtain w' where l: "nbf_Insert_loop bf (replicate (nat (nbf_hf bf)) (H key)) w = (Return None, w')"
    and v': "nbf_valid bf w'"
    and r: "\<forall>x \<in> set (replicate (nat (nbf_hf bf)) (H key)). nbf_reads_set bf w' (x AND (nbf_size bf - 1))"
    using nbf_Insert_loop_ok [OF v] by blast
  have "0 < nbf_hf bf \<longrightarrow> nbf_reads_set bf w' (H key AND (nbf_size bf - 1))"
    using r by auto
  then show ?thesis using l v' by (simp add: nbf_Insert_def he)
qed

lemma nbf_Lookup_world: "snd (nbf_Lookup H bf key w) = w"
  by (cases "hashEntry H key (nbf_hf bf)") (simp_all add: nbf_Lookup_def nbf_Lookup_loop_world)

lemma nbf_Lookup_no_error:
  "nbf_valid bf w \<Longrightarrow> fst (nbf_Lookup H bf key w) \<noteq> Return (b, Some e)"
proof (cases "hashEntry H key (nbf_hf bf)")
  case (Return hs)
  assume "nbf_valid bf w"
  then show ?thesis using nbf_Lookup_loop_no_error [of bf w hs] Return
    by (auto simp: nbf_Lookup_def)
next
  case (Panics p)
  then show ?thesis by (simp add: nbf_Lookup_def)
qed

lemma nbf_Lookup_total:
  "nbf_valid bf w \<Longrightarrow> key \<noteq> [] \<Longrightarrow> 0 \<le> nbf_hf bf \<Longrightarrow>
   \<exists>b. nbf_Lookup H bf key w = (Return (b, None), w)"
  using nbf_Lookup_loop_no_error [of bf w]
  by (simp add: nbf_Lookup_def hashEntry_nonempty)

lemma nbf_Lookup_true:
  assumes k: "key \<noteq> []" and h: "0 \<le> nbf_hf bf"
    and r: "0 < nbf_hf bf \<longrightarrow> nbf_reads_set bf w (H key AND (nbf_size bf - 1))"
  shows "nbf_Lookup H bf key w = (Return (True, None), w)"
proof -
  have he: "hashEntry H key (nbf_hf bf) = Return (replicate (nat (nbf_hf bf)) (H key))"
    using k h by (rule hashEntry_nonempty)
  have "\<forall>x \<in> set (replicate (nat (nbf_hf bf)) (H key)). nbf_reads_set bf w (x AND (nbf_size bf - 1))"
    using r by auto
  then show ?thesis by (simp add: nbf_Lookup_def he nbf_Lookup_loop_true)
qed

lemma nbf_Inserts_ok:
  "nbf_valid bf w \<Longrightarrow> 0 \<le> nbf_hf bf \<Longrightarrow> \<forall>k \<in> set keys. k \<noteq> [] \<Longrightarrow>
   \<exists>w'. nbf_Inserts H bf keys w = (Return None, w') \<and> nbf_valid bf w' \<and>
        (0 < nbf_hf bf \<longrightarrow> (\<forall>k \<in> set keys. nbf_reads_set bf w' (H k AND (nbf_size bf - 1)))) \<and>
        (\<forall>p. nbf_reads_set bf w p \<longrightarrow> nbf_reads_set bf w' p)"
proof (induction keys arbitrary: w)
  case Nil
  then show ?case by simp
next
  case (Cons k ks)
  have k: "k \<noteq> []" and ks: "\<forall>k \<in> set ks. k \<noteq> []" using Cons.prems(3) by simp_all
  obtain w1 where i: "nbf_Insert H bf k w = (Return None, w1)" and v1: "nbf_valid bf w1"
    and r1: "0 < nbf_hf bf \<longrightarrow> nbf_reads_set bf w1 (H k AND (nbf_size bf - 1))"
    using nbf_Insert_ok [OF Cons.prems(1) k Cons.prems(2)] by blast
  have m1: "\<And>p. nbf_reads_set bf w p \<Longrightarrow> nbf_reads_set bf w1 p"
    using nbf_Insert_monotone [of bf w _ H k] i by simp
  obtain w' where l: "nbf_Inserts H bf ks w1 = (Return None, w')" and v': "nbf_valid bf w'"
    and r': "0 < nbf_hf bf \<longrightarrow> (\<forall>k \<in> set ks. nbf_reads_set bf w' (H k AND (nbf_size bf - 1)))"
    and m': "\<forall>p. nbf_reads_set bf w1 p \<longrightarrow> nbf_reads_set bf w' p"
    using Cons.IH [OF v1 Cons.prems(2) ks] by blast
  show ?case using i l v' r' m' r1 m1 by auto
qed

section \<open>NaiveBloomFilter: the calls that do not lock\<close>

lemma nbf_InsertAsync_loop_eq:
  "nbf_valid bf w \<Longrightarrow> nbf_InsertAsync_loop bf hs w = nbf_Insert_loop bf hs w"
proof (induction hs arbitrary: w)
  case Nil
  then show ?case by simp
next
  case (Cons h hs)
  obtain r w' where s: "nbf_setByte bf (h AND (nbf_size bf - 1)) w = (r, w')"
    by (cases "nbf_setByte bf (h AND (nbf_size bf - 1)) w")
  have v': "nbf_valid bf w'" using nbf_setByte_valid [OF Cons.prems, of "h AND (nbf_size bf - 1)"] s by simp
  show ?case using s Cons.IH [OF v']
    by (simp add: nbf_Async_eq(1) [OF Cons.prems] split: outcome.splits option.splits)
qed

lemma nbf_LookupAsync_loop_eq:
  "nbf_valid bf w \<Longrightarrow> nbf_LookupAsync_loop bf hs w = nbf_Lookup_loop bf hs w"
proof (induction hs)
  case Nil
  then show ?case by simp
next
  case (Cons h hs)
  obtain r where g: "nbf_getByte bf (h AND (nbf_size bf - 1)) w = (r, w)"
    using nbf_getByte_world [of bf "h AND (nbf_size bf - 1)" w]
    by (cases "nbf_getByte bf (h AND (nbf_size bf - 1)) w") simp
  show ?case using g Cons
    by (simp add: nbf_Async_eq(2) [OF Cons.prems] split: outcome.splits prod.splits)
qed

lemma nbf_InsertAsync_eq: "nbf_valid bf w \<Longrightarrow> nbf_InsertAsync H bf key w = nbf_Insert H bf key w"
  by (cases "hashEntry H key (nbf_hf bf)")
     (simp_all add: nbf_InsertAsync_def nbf_Insert_def nbf_InsertAsync_loop_eq)

lemma nbf_LookupAsync_eq: "nbf_valid bf w \<Longrightarrow> nbf_LookupAsync H bf key w = nbf_Lookup H bf key w"
  by (cases "hashEntry H key (nbf_hf bf)")
     (simp_all add: nbf_LookupAsync_def nbf_Lookup_def nbf_LookupAsync_loop_eq)

section \<open>NaiveBloomFilter: Write and Load\<close>

lemma nbf_reads_set_cong:
  "heap w' (nbf_bv bf) = heap w (nbf_bv bf) \<Longrightarrow> nbf_reads_set bf w' p = nbf_reads_set bf w p"
  by (simp add: nbf_reads_set_def nbf_getByte_def Let_def)

lemma nbf_valid_cong:
  "heap w' (nbf_bv bf) = heap w (nbf_bv bf) \<Longrightarrow> next_ref w \<le> next_ref w' \<Longrightarrow>
   nbf_valid bf w \<Longrightarrow> nbf_valid bf w'"
  by (simp add: nbf_valid_def)

lemma nbf_Write_heap: "heap (snd (nbf_Write bf f w)) = heap w"
  by (simp add: nbf_Write_def Let_def split: outcome.splits)

lemma nbf_Write_next_ref: "next_ref (snd (nbf_Write bf f w)) = next_ref w"
  by (simp add: nbf_Write_def Let_def split: outcome.splits)

lemma nbf_Write_monotone:
  "nbf_reads_set bf w p \<Longrightarrow> nbf_reads_set bf (snd (nbf_Write bf f w)) p"
  by (simp add: nbf_reads_set_cong [of "snd (nbf_Write bf f w)" bf w] nbf_Write_heap)

lemma nbf_setByte_heap_other:
  "a \<noteq> nbf_bv bf \<Longrightarrow> heap (snd (nbf_setByte bf idx w)) a = heap w a"
  by (simp add: nbf_setByte_def Let_def)

lemma nbf_Load_loop_heap_other:
  "a \<noteq> nbf_bv bf \<Longrightarrow> heap (snd (nbf_Load_loop bf bs i w)) a = heap w a"
proof (induction bs arbitrary: i w)
  case Nil
  then show ?case by simp
next
  case (Cons b bs)
  obtain r w' where s: "nbf_setByte bf (of_nat i) w = (r, w')"
    by (cases "nbf_setByte bf (of_nat i) w")
  have h: "heap w' a = heap w a"
    using nbf_setByte_heap_other [OF Cons.prems, of "of_nat i" w] s by simp
  show ?case using s h Cons.IH [OF Cons.prems]
    by (auto split: outcome.splits)
qed

lemma nbf_Load_loop_monotone:
  "nbf_reads_set bf w p \<Longrightarrow> nbf_reads_set bf (snd (nbf_Load_loop bf bs i w)) p"
proof (induction bs arbitrary: i w)
  case Nil
  then show ?case by simp
next
  case (Cons b bs)
  obtain r w' where s: "nbf_setByte bf (of_nat i) w = (r, w')"
    by (cases "nbf_setByte bf (of_nat i) w")
  have m: "nbf_reads_set bf w' p"
    using nbf_setByte_monotone [OF Cons.prems, of "of_nat i"] s by simp
  show ?case using s m Cons.IH [OF m] Cons.IH [OF Cons.prems]
    by (auto split: outcome.splits)
qed

lemma nbf_Load_loop_result:
  "fst (nbf_Load_loop bf bs i w) \<noteq> Return (Some e)"
proof (induction bs arbitrary: i w)
  case Nil
  then show ?case by simp
next
  case (Cons b bs)
  obtain r w' where s: "nbf_setByte bf (of_nat i) w = (r, w')"
    by (cases "nbf_setByte bf (of_nat i) w")
  show ?case using s Cons.IH [of "Suc i" w'] Cons.IH [of "Suc i" w]
    by (auto split: outcome.splits)
qed

lemma nbf_Load_monotone:
  "nbf_reads_set bf w p \<Longrightarrow> nbf_reads_set bf (snd (nbf_Load bf f w)) p"
  by (simp add: nbf_Load_def Let_def nbf_Load_loop_monotone split: option.splits)

lemma nbf_Load_mismatch:
  "files w f = Some content \<Longrightarrow>
   nbf_size bf \<noteq> word_of_int (int (length (ReadBytes content 0x0A)) - 1) \<Longrightarrow>
   nbf_Load bf f w =
     (Return (Some (SizeMismatch (int (length (ReadBytes content 0x0A)) - 1) (nbf_size bf))), w)"
  by (simp add: nbf_Load_def Let_def)

section \<open>The loops of Write\<close>

lemma packed_Write_loop_panics:
  "i \<le> length bv \<Longrightarrow> length bv < i + m \<Longrightarrow> packed_Write_loop bv m i b = Panics IndexOutOfRange"
proof (induction m arbitrary: i b)
  case 0
  then show ?case by simp
next
  case (Suc m)
  show ?case
  proof (cases "i < length bv")
    case True
    then have "packed_Write_loop bv m (Suc i) (b @ fmt_b (unat (bv ! i))) = Panics IndexOutOfRange"
      using Suc.prems by (intro Suc.IH) simp_all
    then show ?thesis using True by simp
  next
    case False
    then show ?thesis by simp
  qed
qed

section \<open>A key that was inserted is found\<close>

lemma sbf_Insert_then_Lookup:
  assumes v: "sbf_valid bf w" and i: "sbf_Insert H bf key w = (Return None, w1)"
    and m: "\<forall>p. sbf_reads_set bf w1 p \<longrightarrow> sbf_reads_set bf w' p"
  shows "sbf_Lookup H bf key w' = (Return (True, None), w')"
proof (cases "hashEntry H key (sbf_hf bf)")
  case (Return hs)
  obtain w2 where l: "sbf_Insert_loop bf hs w = (Return None, w2)"
    and r: "\<forall>h \<in> set hs. sbf_reads_set bf w2 (h AND (sbf_size bf - 1))"
    using sbf_Insert_loop_ok [OF v, of hs] by blast
  have "w2 = w1" using i l Return by (simp add: sbf_Insert_def)
  then have "\<forall>h \<in> set hs. sbf_reads_set bf w' (h AND (sbf_size bf - 1))" using r m by simp
  then show ?thesis using Return by (simp add: sbf_Lookup_def sbf_Lookup_loop_true)
next
  case (Panics p)
  then show ?thesis using i by (simp add: sbf_Insert_def)
qed

lemma sbf_Inserts_monotone:
  "sbf_reads_set bf w p \<Longrightarrow> sbf_reads_set bf (snd (sbf_Inserts H bf keys w)) p"
proof (induction keys arbitrary: w)
  case Nil
  then show ?case by simp
next
  case (Cons k ks)
  obtain r w1 where i: "sbf_Insert H bf k w = (r, w1)" by (cases "sbf_Insert H bf k w")
  have m: "sbf_reads_set bf w1 p" using sbf_Insert_monotone [OF Cons.prems, of H k] i by simp
  show ?case using i m Cons.IH [OF m] by (auto split: outcome.splits option.splits)
qed

lemma sbf_Inserts_then_Lookup:
  "sbf_valid bf w \<Longrightarrow> sbf_Inserts H bf keys w = (Return None, w') \<Longrightarrow> key \<in> set keys \<Longrightarrow>
   sbf_Lookup H bf key w' = (Return (True, None), w')"
proof (induction keys arbitrary: w)
  case Nil
  then show ?case by simp
next
  case (Cons k ks)
  obtain w1 where i: "sbf_Insert H bf k w = (Return None, w1)"
    and l: "sbf_Inserts H bf ks w1 = (Return None, w')"
    using Cons.prems(2)
    by (cases "sbf_Insert H bf k w") (auto split: outcome.splits option.splits)
  have v1: "sbf_valid bf w1" using sbf_Insert_valid [OF Cons.prems(1), of H k] i by simp
  show ?case
  proof (cases "key = k")
    case True
    have "\<forall>p. sbf_reads_set bf w1 p \<longrightarrow> sbf_reads_set bf w' p"
      using sbf_Inserts_monotone [of bf w1 _ H ks] l by simp
    then show ?thesis using sbf_Insert_then_Lookup [OF Cons.prems(1) i] True by simp
  next
    case False
    then have "key \<in> set ks" using Cons.prems(3) by simp
    then show ?thesis using Cons.IH [OF v1 l] by simp
  qed
qed

lemma sbf_no_false_negative:
  assumes v: "sbf_valid bf w" and k: "key \<in> set keys"
  shows "(0 \<le> sbf_hf bf \<and> (\<forall>k \<in> set keys. k \<noteq> []) \<longrightarrow>
            (\<exists>w'. sbf_Inserts H bf keys w = (Return None, w'))) \<and>
         (\<forall>w'. sbf_Inserts H bf keys w = (Return None, w') \<longrightarrow>
            sbf_Lookup H bf key w' = (Return (True, None), w'))"
  using sbf_Inserts_ok [OF v, of keys H] sbf_Inserts_then_Lookup [OF v _ k, of H]
  by blast

lemma bf_Insert_then_Lookup:
  assumes v: "bf_valid bf w" and i: "bf_Insert H bf key w = (Return None, w1)"
    and m: "\<forall>p. bf_reads_set bf w1 p \<longrightarrow> bf_reads_set bf w' p"
  shows "bf_Lookup H bf key w' = (Return (True, None), w')"
proof (cases "hashEntry H key (bf_hf bf)")
  case (Return hs)
  obtain w2 where l: "bf_Insert_loop bf hs w = (Return None, w2)"
    and r: "\<forall>h \<in> set hs. bf_reads_set bf w2 (h AND (bf_size bf - 1))"
    using bf_Insert_loop_ok [OF v, of hs] by blast
  have "w2 = w1" using i l Return by (simp add: bf_Insert_def)
  then have "\<forall>h \<in> set hs. bf_reads_set bf w' (h AND (bf_size bf - 1))" using r m by simp
  then show ?thesis using Return by (simp add: bf_Lookup_def bf_Lookup_loop_true)
next
  case (Panics p)
  then show ?thesis using i by (simp add: bf_Insert_def)
qed

lemma bf_Inserts_monotone:
  "bf_reads_set bf w p \<Longrightarrow> bf_reads_set bf (snd (bf_Inserts H bf keys w)) p"
proof (induction keys arbitrary: w)
  case Nil
  then show ?case by simp
next
  case (Cons k ks)
  obtain r w1 where i: "bf_Insert H bf k w = (r, w1)" by (cases "bf_Insert H bf k w")
  have m: "bf_reads_set bf w1 p" using bf_Insert_monotone [OF Cons.prems, of H k] i by simp
  show ?case using i m Cons.IH [OF m] by (auto split: outcome.splits option.splits)
qed

lemma bf_Inserts_then_Lookup:
  "bf_valid bf w \<Longrightarrow> bf_Inserts H bf keys w = (Return None, w') \<Longrightarrow> key \<in> set keys \<Longrightarrow>
   bf_Lookup H bf key w' = (Return (True, None), w')"
proof (induction keys arbitrary: w)
  case Nil
  then show ?case by simp
next
  case (Cons k ks)
  obtain w1 where i: "bf_Insert H bf k w = (Return None, w1)"
    and l: "bf_Inserts H bf ks w1 = (Return None, w')"
    using Cons.prems(2)
    by (cases "bf_Insert H bf k w") (auto split: outcome.splits option.splits)
  have v1: "bf_valid bf w1" using bf_Insert_valid [OF Cons.prems(1), of H k] i by simp
  show ?case
  proof (cases "key = k")
    case True
    have "\<forall>p. bf_reads_set bf w1 p \<longrightarrow> bf_reads_set bf w' p"
      using bf_Inserts_monotone [of bf w1 _ H ks] l by simp
    then show ?thesis using bf_Insert_then_Lookup [OF Cons.prems(1) i] True by simp
  next
    case False
    then have "key \<in> set ks" using Cons.prems(3) by simp
    then show ?thesis using Cons.IH [OF v1 l] by simp
  qed
qed

lemma bf_no_false_negative:
  assumes v: "bf_valid bf w" and k: "key \<in> set keys"
  shows "(0 \<le> bf_hf bf \<and> (\<forall>k \<in> set keys. k \<noteq> []) \<longrightarrow>
            (\<exists>w'. bf_Inserts H bf keys w = (Return None, w'))) \<and>
         (\<forall>w'. bf_Inserts H bf keys w = (Return None, w') \<longrightarrow>
            bf_Lookup H bf key w' = (Return (True, None), w'))"
  using bf_Inserts_ok [OF v, of keys H] bf_Inserts_then_Lookup [OF v _ k, of H]
  by blast

lemma nsbf_Insert_then_Lookup:
  assumes v: "nsbf_valid bf w" and i: "nsbf_Insert H bf key w = (Return None, w1)"
    and m: "\<forall>p. nsbf_reads_set bf w1 p \<longrightarrow> nsbf_reads_set bf w' p"
  shows "nsbf_Lookup H bf key w' = (Return (True, None), w')"
proof (cases "hashEntry H key (nsbf_hf bf)")
  case (Return hs)
  obtain w2 where l: "nsbf_Insert_loop bf hs w = (Return None, w2)"
    and r: "\<forall>h \<in> set hs. nsbf_reads_set bf w2 (h AND (nsbf_size bf - 1))"
    using nsbf_Insert_loop_ok [OF v, of hs] by blast
  have "w2 = w1" using i l Return by (simp add: nsbf_Insert_def)
  then have "\<forall>h \<in> set hs. nsbf_reads_set bf w' (h AND (nsbf_size bf - 1))" using r m by simp
  then show ?thesis using Return by (simp add: nsbf_Lookup_def nsbf_Lookup_loop_true)
next
  case (Panics p)
  then show ?thesis using i by (simp add: nsbf_Insert_def)
qed

lemma nsbf_Inserts_monotone:
  "nsbf_reads_set bf w p \<Longrightarrow> nsbf_reads_set bf (snd (nsbf_Inserts H bf keys w)) p"
proof (induction keys arbitrary: w)
  case Nil
  then show ?case by simp
next
  case (Cons k ks)
  obtain r w1 where i: "nsbf_Insert H bf k w = (r, w1)" by (cases "nsbf_Insert H bf k w")
  have m: "nsbf_reads_set bf w1 p" using nsbf_Insert_monotone [OF Cons.prems, of H k] i by simp
  show ?case using i m Cons.IH [OF m] by (auto split: outcome.splits option.splits)
qed

lemma nsbf_Inserts_then_Lookup:
  "nsbf_valid bf w \<Longrightarrow> nsbf_Inserts H bf keys w = (Return None, w') \<Longrightarrow> key \<in> set keys \<Longrightarrow>
   nsbf_Lookup H bf key w' = (Return (True, None), w')"
proof (induction keys arbitrary: w)
  case Nil
  then show ?case by simp
next
  case (Cons k ks)
  obtain w1 where i: "nsbf_Insert H bf k w = (Return None, w1)"
    and l: "nsbf_Inserts H bf ks w1 = (Return None, w')"
    using Cons.prems(2)
    by (cases "nsbf_Insert H bf k w") (auto split: outcome.splits option.splits)
  have v1: "nsbf_valid bf w1" using nsbf_Insert_valid [OF Cons.prems(1), of H k] i by simp
  show ?case
  proof (cases "key = k")
    case True
    have "\<forall>p. nsbf_reads_set bf w1 p \<longrightarrow> nsbf_reads_set bf w' p"
      using nsbf_Inserts_monotone [of bf w1 _ H ks] l by simp
    then show ?thesis using nsbf_Insert_then_Lookup [OF Cons.prems(1) i] True by simp
  next
    case False
    then have "key \<in> set ks" using Cons.prems(3) by simp
    then show ?thesis using Cons.IH [OF v1 l] by simp
  qed
qed

lemma nsbf_no_false_negative:
  assumes v: "nsbf_valid bf w" and k: "key \<in> set keys"
  shows "(0 \<le> nsbf_hf bf \<and> (\<forall>k \<in> set keys. k \<noteq> []) \<longrightarrow>
            (\<exists>w'. nsbf_Inserts H bf keys w = (Return None, w'))) \<and>
         (\<forall>w'. nsbf_Inserts H bf keys w = (Return None, w') \<longrightarrow>
            nsbf_Lookup H bf key w' = (Return (True, None), w'))"
  using nsbf_Inserts_ok [OF v, of keys H] nsbf_Inserts_then_Lookup [OF v _ k, of H]
  by blast

lemma nbf_Insert_then_Lookup:
  assumes v: "nbf_valid bf w" and i: "nbf_Insert H bf key w = (Return None, w1)"
    and m: "\<forall>p. nbf_reads_set bf w1 p \<longrightarrow> nbf_reads_set bf w' p"
  shows "nbf_Lookup H bf key w' = (Return (True, None), w')"
proof (cases "hashEntry H key (nbf_hf bf)")
  case (Return hs)
  obtain w2 where l: "nbf_Insert_loop bf hs w = (Return None, w2)"
    and r: "\<forall>h \<in> set hs. nbf_reads_set bf w2 (h AND (nbf_size bf - 1))"
    using nbf_Insert_loop_ok [OF v, of hs] by blast
  have "w2 = w1" using i l Return by (simp add: nbf_Insert_def)
  then have "\<forall>h \<in> set hs. nbf_reads_set bf w' (h AND (nbf_size bf - 1))" using r m by simp
  then show ?thesis using Return by (simp add: nbf_Lookup_def nbf_Lookup_loop_true)
next
  case (Panics p)
  then show ?thesis using i by (simp add: nbf_Insert_def)
qed

lemma nbf_Inserts_monotone:
  "nbf_reads_set bf w p \<Longrightarrow> nbf_reads_set bf (snd (nbf_Inserts H bf keys w)) p"
proof (induction keys arbitrary: w)
  case Nil
  then show ?case by simp
next
  case (Cons k ks)
  obtain r w1 where i: "nbf_Insert H bf k w = (r, w1)" by (cases "nbf_Insert H bf k w")
  have m: "nbf_reads_set bf w1 p" using nbf_Insert_monotone [OF Cons.prems, of H k] i by simp
  show ?case using i m Cons.IH [OF m] by (auto split: outcome.splits option.splits)
qed

lemma nbf_Inserts_then_Lookup:
  "nbf_valid bf w \<Longrightarrow> nbf_Inserts H bf keys w = (Return None, w') \<Longrightarrow> key \<in> set keys \<Longrightarrow>
   nbf_Lookup H bf key w' = (Return (True, None), w')"
proof (induction keys arbitrary: w)
  case Nil
  then show ?case by simp
next
  case (Cons k ks)
  obtain w1 where i: "nbf_Insert H bf k w = (Return None, w1)"
    and l: "nbf_Inserts H bf ks w1 = (Return None, w')"
    using Cons.prems(2)
    by (cases "nbf_Insert H bf k w") (auto split: outcome.splits option.splits)
  have v1: "nbf_valid bf w1" using nbf_Insert_valid [OF Cons.prems(1), of H k] i by simp
  show ?case
  proof (cases "key = k")
    case True
    have "\<forall>p. nbf_reads_set bf w1 p \<longrightarrow> nbf_reads_set bf w' p"
      using nbf_Inserts_monotone [of bf w1 _ H ks] l by simp
    then show ?thesis using nbf_Insert_then_Lookup [OF Cons.prems(1) i] True by simp
  next
    case False
    then have "key \<in> set ks" using Cons.prems(3) by simp
    then show ?thesis using Cons.IH [OF v1 l] by simp
  qed
qed

lemma nbf_no_false_negative:
  assumes v: "nbf_valid bf w" and k: "key \<in> set keys"
  shows "(0 \<le> nbf_hf bf \<and> (\<forall>k \<in> set keys. k \<noteq> []) \<longrightarrow>
            (\<exists>w'. nbf_Inserts H bf keys w = (Return None, w'))) \<and>
         (\<forall>w'. nbf_Inserts H bf keys w = (Return None, w') \<longrightarrow>
            nbf_Lookup H bf key w' = (Return (True, None), w'))"
  using nbf_Inserts_ok [OF v, of keys H] nbf_Inserts_then_Lookup [OF v _ k, of H]
  by blast

section \<open>Derived positions are in range\<close>

lemma sbf_positions_in_range:
  assumes v: "sbf_valid bf w"
  shows "h AND (sbf_size bf - 1) < sbf_size bf"
    and "fst (sbf_Insert H bf key w) \<noteq> Return (Some e)"
    and "fst (sbf_Lookup H bf key w) \<noteq> Return (b, Some e)"
    and "p < sbf_size bf \<longrightarrow> p AND (sbf_size bf - 1) = p \<and>
           fst (sbf_setBit bf p w) = Return None \<and> (\<exists>r. sbf_getBit bf p w = (Return (r, None), w))"
proof -
  have sz: "64 \<le> sbf_size bf" and p2: "sbf_size bf AND (sbf_size bf - 1) = 0"
    using v by (simp_all add: sbf_valid_def)
  have "h AND (sbf_size bf - 1) \<le> sbf_size bf - 1" by (rule masked_le)
  then show "h AND (sbf_size bf - 1) < sbf_size bf"
    using gt_pred_iff [OF sz, of "h AND (sbf_size bf - 1)"] by auto
  show "fst (sbf_Insert H bf key w) \<noteq> Return (Some e)" using v by (rule sbf_Insert_no_error)
  show "fst (sbf_Lookup H bf key w) \<noteq> Return (b, Some e)" using v by (rule sbf_Lookup_no_error)
  show "p < sbf_size bf \<longrightarrow> p AND (sbf_size bf - 1) = p \<and>
           fst (sbf_setBit bf p w) = Return None \<and> (\<exists>r. sbf_getBit bf p w = (Return (r, None), w))"
  proof
    assume "p < sbf_size bf"
    then have le: "p \<le> sbf_size bf - 1" using gt_pred_iff [OF sz, of p] by auto
    show "p AND (sbf_size bf - 1) = p \<and>
           fst (sbf_setBit bf p w) = Return None \<and> (\<exists>r. sbf_getBit bf p w = (Return (r, None), w))"
      using masked_id [OF sz p2 le] sbf_setBit_returns [OF v le] sbf_getBit_returns [OF v le] by simp
  qed
qed

lemma bf_positions_in_range:
  assumes v: "bf_valid bf w"
  shows "h AND (bf_size bf - 1) < bf_size bf"
    and "fst (bf_Insert H bf key w) \<noteq> Return (Some e)"
    and "fst (bf_Lookup H bf key w) \<noteq> Return (b, Some e)"
    and "p < bf_size bf \<longrightarrow> p AND (bf_size bf - 1) = p \<and>
           fst (bf_setBit bf p w) = Return None \<and> (\<exists>r. bf_getBit bf p w = (Return (r, None), w))"
proof -
  have sz: "64 \<le> bf_size bf" and p2: "bf_size bf AND (bf_size bf - 1) = 0"
    using v by (simp_all add: bf_valid_def)
  have "h AND (bf_size bf - 1) \<le> bf_size bf - 1" by (rule masked_le)
  then show "h AND (bf_size bf - 1) < bf_size bf"
    using gt_pred_iff [OF sz, of "h AND (bf_size bf - 1)"] by auto
  show "fst (bf_Insert H bf key w) \<noteq> Return (Some e)" using v by (rule bf_Insert_no_error)
  show "fst (bf_Lookup H bf key w) \<noteq> Return (b, Some e)" using v by (rule bf_Lookup_no_error)
  show "p < bf_size bf \<longrightarrow> p AND (bf_size bf - 1) = p \<and>
           fst (bf_setBit bf p w) = Return None \<and> (\<exists>r. bf_getBit bf p w = (Return (r, None), w))"
  proof
    assume "p < bf_size bf"
    then have le: "p \<le> bf_size bf - 1" using gt_pred_iff [OF sz, of p] by auto
    show "p AND (bf_size bf - 1) = p \<and>
           fst (bf_setBit bf p w) = Return None \<and> (\<exists>r. bf_getBit bf p w = (Return (r, None), w))"
      using masked_id [OF sz p2 le] bf_setBit_returns [OF v le] bf_getBit_returns [OF v le] by simp
  qed
qed

lemma nsbf_positions_in_range:
  assumes v: "nsbf_valid bf w"
  shows "h AND (nsbf_size bf - 1) < nsbf_size bf"
    and "fst (nsbf_Insert H bf key w) \<noteq> Return (Some e)"
    and "fst (nsbf_Lookup H bf key w) \<noteq> Return (b, Some e)"
    and "p < nsbf_size bf \<longrightarrow> p AND (nsbf_size bf - 1) = p \<and>
           fst (nsbf_setByte bf p w) = Return None \<and> (\<exists>r. nsbf_getByte bf p w = (Return (r, None), w))"
proof -
  have sz: "64 \<le> nsbf_size bf" and p2: "nsbf_size bf AND (nsbf_size bf - 1) = 0"
    using v by (simp_all add: nsbf_valid_def)
  have "h AND (nsbf_size bf - 1) \<le> nsbf_size bf - 1" by (rule masked_le)
  then show "h AND (nsbf_size bf - 1) < nsbf_size bf"
    using gt_pred_iff [OF sz, of "h AND (nsbf_size bf - 1)"] by auto
  show "fst (nsbf_Insert H bf key w) \<noteq> Return (Some e)" using v by (rule nsbf_Insert_no_error)
  show "fst (nsbf_Lookup H bf key w) \<noteq> Return (b, Some e)" using v by (rule nsbf_Lookup_no_error)
  show "p < nsbf_size bf \<longrightarrow> p AND (nsbf_size bf - 1) = p \<and>
           fst (nsbf_setByte bf p w) = Return None \<and> (\<exists>r. nsbf_getByte bf p w = (Return (r, None), w))"
  proof
    assume "p < nsbf_size bf"
    then have le: "p \<le> nsbf_size bf - 1" using gt_pred_iff [OF sz, of p] by auto
    show "p AND (nsbf_size bf - 1) = p \<and>
           fst (nsbf_setByte bf p w) = Return None \<and> (\<exists>r. nsbf_getByte bf p w = (Return (r, None), w))"
      using masked_id [OF sz p2 le] nsbf_setByte_returns [OF v le] nsbf_getByte_returns [OF v le] by simp
  qed
qed

lemma nbf_positions_in_range:
  assumes v: "nbf_valid bf w"
  shows "h AND (nbf_size bf - 1) < nbf_size bf"
    and "fst (nbf_Insert H bf key w) \<noteq> Return (Some e)"
    and "fst (nbf_Lookup H bf key w) \<noteq> Return (b, Some e)"
    and "p < nbf_size bf \<longrightarrow> p AND (nbf_size bf - 1) = p \<and>
           fst (nbf_setByte bf p w) = Return None \<and> (\<exists>r. nbf_getByte bf p w = (Return (r, None), w))"
proof -
  have sz: "64 \<le> nbf_size bf" and p2: "nbf_size bf AND (nbf_size bf - 1) = 0"
    using v by (simp_all add: nbf_valid_def)
  have "h AND (nbf_size bf - 1) \<le> nbf_size bf - 1" by (rule masked_le)
  then show "h AND (nbf_size bf - 1) < nbf_size bf"
    using gt_pred_iff [OF sz, of "h AND (nbf_size bf - 1)"] by auto
  show "fst (nbf_Insert H bf key w) \<noteq> Return (Some e)" using v by (rule nbf_Insert_no_error)
  show "fst (nbf_Lookup H bf key w) \<noteq> Return (b, Some e)" using v by (rule nbf_Lookup_no_error)
  show "p < nbf_size bf \<longrightarrow> p AND (nbf_size bf - 1) = p \<and>
           fst (nbf_setByte bf p w) = Return None \<and> (\<exists>r. nbf_getByte bf p w = (Return (r, None), w))"
  proof
    assume "p < nbf_size bf"
    then have le: "p \<le> nbf_size bf - 1" using gt_pred_iff [OF sz, of p] by auto
    show "p AND (nbf_size bf - 1) = p \<and>
           fst (nbf_setByte bf p w) = Return None \<and> (\<exists>r. nbf_getByte bf p w = (Return (r, None), w))"
      using masked_id [OF sz p2 le] nbf_setByte_returns [OF v le] nbf_getByte_returns [OF v le] by simp
  qed
qed

section \<open>No operation clears a position\<close>

lemma sbf_operations_monotone:
  assumes v: "sbf_valid bf w" and r: "sbf_reads_set bf w p"
  shows "sbf_reads_set bf (snd (sbf_Insert H bf key w)) p"
    and "sbf_reads_set bf (snd (sbf_InsertAsync H bf key w)) p"
    and "sbf_reads_set bf (snd (sbf_Lookup H bf key w)) p"
    and "sbf_reads_set bf (snd (sbf_LookupAsync H bf key w)) p"
    and "sbf_reads_set bf (snd (sbf_Load bf f w)) p"
    and "sbf_reads_set bf (snd (sbf_Write bf f w)) p"
proof -
  show "sbf_reads_set bf (snd (sbf_Insert H bf key w)) p" using r by (rule sbf_Insert_monotone)
  then show "sbf_reads_set bf (snd (sbf_InsertAsync H bf key w)) p"
    by (simp add: sbf_InsertAsync_eq [OF v])
  show "sbf_reads_set bf (snd (sbf_Lookup H bf key w)) p" using r by (simp add: sbf_Lookup_world)
  then show "sbf_reads_set bf (snd (sbf_LookupAsync H bf key w)) p"
    by (simp add: sbf_LookupAsync_eq [OF v])
  show "sbf_reads_set bf (snd (sbf_Load bf f w)) p" using v r by (simp add: sbf_Load_monotone sbf_valid_def)
  show "sbf_reads_set bf (snd (sbf_Write bf f w)) p" using r by (rule sbf_Write_monotone)
qed

lemma bf_operations_monotone:
  assumes v: "bf_valid bf w" and r: "bf_reads_set bf w p"
  shows "bf_reads_set bf (snd (bf_Insert H bf key w)) p"
    and "bf_reads_set bf (snd (bf_InsertAsync H bf key w)) p"
    and "bf_reads_set bf (snd (bf_Lookup H bf key w)) p"
    and "bf_reads_set bf (snd (bf_LookupAsync H bf key w)) p"
    and "bf_reads_set bf (snd (bf_Load bf f w)) p"
    and "bf_reads_set bf (snd (bf_Write bf f w)) p"
proof -
  show "bf_reads_set bf (snd (bf_Insert H bf key w)) p" using r by (rule bf_Insert_monotone)
  then show "bf_reads_set bf (snd (bf_InsertAsync H bf key w)) p"
    by (simp add: bf_InsertAsync_eq [OF v])
  show "bf_reads_set bf (snd (bf_Lookup H bf key w)) p" using r by (simp add: bf_Lookup_world)
  then show "bf_reads_set bf (snd (bf_LookupAsync H bf key w)) p"
    by (simp add: bf_LookupAsync_eq [OF v])
  show "bf_reads_set bf (snd (bf_Load bf f w)) p" using r by (rule bf_Load_monotone)
  show "bf_reads_set bf (snd (bf_Write bf f w)) p" using r by (rule bf_Write_monotone)
qed

lemma nsbf_operations_monotone:
  assumes v: "nsbf_valid bf w" and r: "nsbf_reads_set bf w p"
  shows "nsbf_reads_set bf (snd (nsbf_Insert H bf key w)) p"
    and "nsbf_reads_set bf (snd (nsbf_InsertAsync H bf key w)) p"
    and "nsbf_reads_set bf (snd (nsbf_Lookup H bf key w)) p"
    and "nsbf_reads_set bf (snd (nsbf_LookupAsync H bf key w)) p"
    and "nsbf_reads_set bf (snd (nsbf_Load bf f w)) p"
    and "nsbf_reads_set bf (snd (nsbf_Write bf f w)) p"
proof -
  show "nsbf_reads_set bf (snd (nsbf_Insert H bf key w)) p" using r by (rule nsbf_Insert_monotone)
  then show "nsbf_reads_set bf (snd (nsbf_InsertAsync H bf key w)) p"
    by (simp add: nsbf_InsertAsync_eq [OF v])
  show "nsbf_reads_set bf (snd (nsbf_Lookup H bf key w)) p" using r by (simp add: nsbf_Lookup_world)
  then show "nsbf_reads_set bf (snd (nsbf_LookupAsync H bf key w)) p"
    by (simp add: nsbf_LookupAsync_eq [OF v])
  show "nsbf_reads_set bf (snd (nsbf_Load bf f w)) p" using r by (rule nsbf_Load_monotone)
  show "nsbf_reads_set bf (snd (nsbf_Write bf f w)) p" using r by (rule nsbf_Write_monotone)
qed

lemma nbf_operations_monotone:
  assumes v: "nbf_valid bf w" and r: "nbf_reads_set bf w p"
  shows "nbf_reads_set bf (snd (nbf_Insert H bf key w)) p"
    and "nbf_reads_set bf (snd (nbf_InsertAsync H bf key w)) p"
    and "nbf_reads_set bf (snd (nbf_Lookup H bf key w)) p"
    and "nbf_reads_set bf (snd (nbf_LookupAsync H bf key w)) p"
    and "nbf_reads_set bf (snd (nbf_Load bf f w)) p"
    and "nbf_reads_set bf (snd (nbf_Write bf f w)) p"
proof -
  show "nbf_reads_set bf (snd (nbf_Insert H bf key w)) p" using r by (rule nbf_Insert_monotone)
  then show "nbf_reads_set bf (snd (nbf_InsertAsync H bf key w)) p"
    by (simp add: nbf_InsertAsync_eq [OF v])
  show "nbf_reads_set bf (snd (nbf_Lookup H bf key w)) p" using r by (simp add: nbf_Lookup_world)
  then show "nbf_reads_set bf (snd (nbf_LookupAsync H bf key w)) p"
    by (simp add: nbf_LookupAsync_eq [OF v])
  show "nbf_reads_set bf (snd (nbf_Load bf f w)) p" using r by (rule nbf_Load_monotone)
  show "nbf_reads_set bf (snd (nbf_Write bf f w)) p" using r by (rule nbf_Write_monotone)
qed

section \<open>What Write produces and what Load reads back\<close>

lemma packed_Write_reads_too_far:
  assumes sz: "64 \<le> (sz :: uint64)" and nn: "0 \<le> sint sz" and len: "length bv = unat (sz div 64)"
  shows "packed_Write_loop bv (nat (sint sz)) 0 [] = Panics IndexOutOfRange"
proof -
  have m: "nat (sint sz) = unat sz" using sint_nonneg [OF nn] by simp
  have "64 \<le> unat sz" using sz by (rule unat_ge64)
  then have "unat sz div 64 < unat sz" by simp
  then have "length bv < 0 + unat sz" by (simp add: len unat_div)
  then show ?thesis unfolding m by (intro packed_Write_loop_panics) simp_all
qed

lemma fmt_d_bit: "x = 0 \<or> x = 1 \<Longrightarrow> fmt_d (unat (x :: byte)) = [0x30 + x]"
  by (auto simp: fmt_d.simps)

lemma naive_Write_loop_flags:
  "set bv \<subseteq> {0, 1} \<Longrightarrow> i + m \<le> length bv \<Longrightarrow>
   naive_Write_loop bv m i b = Return (b @ map (\<lambda>x. 0x30 + x) (take m (drop i bv)))"
proof (induction m arbitrary: i b)
  case 0
  then show ?case by simp
next
  case (Suc m)
  have i: "i < length bv" using Suc.prems(2) by simp
  then have "bv ! i \<in> set bv" by simp
  then have f: "fmt_d (unat (bv ! i)) = [0x30 + bv ! i]" using Suc.prems(1) by (intro fmt_d_bit) auto
  have d: "drop i bv = bv ! i # drop (Suc i) bv" using i by (simp add: Cons_nth_drop_Suc)
  have "naive_Write_loop bv m (Suc i) (b @ [0x30 + bv ! i])
        = Return ((b @ [0x30 + bv ! i]) @ map (\<lambda>x. 0x30 + x) (take m (drop (Suc i) bv)))"
    using Suc.prems by (intro Suc.IH) simp_all
  then show ?case using i f d by simp
qed

lemma ReadBytes_no_delim: "d \<notin> set bs \<Longrightarrow> ReadBytes bs d = bs"
  by (induction bs) auto

lemma flags_no_newline: "set bv \<subseteq> {0, 1 :: byte} \<Longrightarrow> 0x0A \<notin> set (map (\<lambda>x. 0x30 + x) bv)"
  by auto

lemma nbf_Write_flags:
  assumes v: "nbf_valid bf w" and b: "set (heap w (nbf_bv bf)) \<subseteq> {0, 1}" and l: "\<not> locked w f"
  shows "nbf_Write bf f w =
    (Return None, w\<lparr>files := (files w)(f \<mapsto> map (\<lambda>x. 0x30 + x) (heap w (nbf_bv bf)))\<rparr>)"
proof -
  have nn: "0 \<le> sint (nbf_size bf)" and len: "length (heap w (nbf_bv bf)) = unat (nbf_size bf)"
    using v by (simp_all add: nbf_valid_def)
  have m: "nat (sint (nbf_size bf)) = length (heap w (nbf_bv bf))"
    using sint_nonneg [OF nn] len by simp
  have "naive_Write_loop (heap w (nbf_bv bf)) (length (heap w (nbf_bv bf))) 0 []
        = Return ([] @ map (\<lambda>x. 0x30 + x) (take (length (heap w (nbf_bv bf))) (drop 0 (heap w (nbf_bv bf)))))"
    using b by (intro naive_Write_loop_flags) simp_all
  then show ?thesis using l by (simp add: nbf_Write_def m)
qed

lemma nbf_setByte_flags:
  assumes b: "set (heap w (nbf_bv bf)) \<subseteq> {0, 1}"
  shows "set (heap (snd (nbf_setByte bf idx w)) (nbf_bv bf)) \<subseteq> {0, 1}"
proof -
  have u: "set ((heap w (nbf_bv bf))[i := 1]) \<subseteq> {0, 1}" for i
    using set_update_subset_insert [of "heap w (nbf_bv bf)" i 1] b by blast
  consider "snd (nbf_setByte bf idx w) = w"
    | i where "snd (nbf_setByte bf idx w) =
         w\<lparr>heap := (heap w)(nbf_bv bf := (heap w (nbf_bv bf))[i := 1])\<rparr>"
    using nbf_setByte_cases [of bf idx w "fst (nbf_setByte bf idx w)" "snd (nbf_setByte bf idx w)"]
    by auto
  then show ?thesis
  proof cases
    case 1
    then show ?thesis using b by simp
  next
    case 2
    then show ?thesis using u [of i] by simp
  qed
qed

lemma nbf_Insert_loop_flags:
  "set (heap w (nbf_bv bf)) \<subseteq> {0, 1} \<Longrightarrow>
   set (heap (snd (nbf_Insert_loop bf hs w)) (nbf_bv bf)) \<subseteq> {0, 1}"
proof (induction hs arbitrary: w)
  case Nil
  then show ?case by simp
next
  case (Cons h hs)
  obtain r w' where s: "nbf_setByte bf (h AND (nbf_size bf - 1)) w = (r, w')"
    by (cases "nbf_setByte bf (h AND (nbf_size bf - 1)) w")
  have m: "set (heap w' (nbf_bv bf)) \<subseteq> {0, 1}"
    using nbf_setByte_flags [OF Cons.prems, of "h AND (nbf_size bf - 1)"] s by simp
  show ?case using s m Cons.IH [OF m]
    by (auto split: outcome.splits option.splits)
qed

lemma nbf_Insert_flags:
  "set (heap w (nbf_bv bf)) \<subseteq> {0, 1} \<Longrightarrow>
   set (heap (snd (nbf_Insert H bf key w)) (nbf_bv bf)) \<subseteq> {0, 1}"
  by (cases "hashEntry H key (nbf_hf bf)") (simp_all add: nbf_Insert_def nbf_Insert_loop_flags)

lemma nbf_Inserts_flags:
  "set (heap w (nbf_bv bf)) \<subseteq> {0, 1} \<Longrightarrow>
   set (heap (snd (nbf_Inserts H bf keys w)) (nbf_bv bf)) \<subseteq> {0, 1}"
proof (induction keys arbitrary: w)
  case Nil
  then show ?case by simp
next
  case (Cons k ks)
  obtain r w1 where i: "nbf_Insert H bf k w = (r, w1)" by (cases "nbf_Insert H bf k w")
  have m: "set (heap w1 (nbf_bv bf)) \<subseteq> {0, 1}" using nbf_Insert_flags [OF Cons.prems, of H k] i by simp
  show ?case using i m Cons.IH [OF m] by (auto split: outcome.splits option.splits)
qed

lemma nbf_Inserts_valid:
  "nbf_valid bf w \<Longrightarrow> nbf_valid bf (snd (nbf_Inserts H bf keys w))"
proof (induction keys arbitrary: w)
  case Nil
  then show ?case by simp
next
  case (Cons k ks)
  obtain r w1 where i: "nbf_Insert H bf k w = (r, w1)" by (cases "nbf_Insert H bf k w")
  have m: "nbf_valid bf w1" using nbf_Insert_valid [OF Cons.prems, of H k] i by simp
  show ?case using i m Cons.IH [OF m] by (auto split: outcome.splits option.splits)
qed

lemma nbf_Inserts_nonempty:
  "nbf_Inserts H bf keys w = (Return None, w') \<Longrightarrow> 0 < nbf_hf bf \<Longrightarrow> key \<in> set keys \<Longrightarrow> key \<noteq> []"
proof (induction keys arbitrary: w)
  case Nil
  then show ?case by simp
next
  case (Cons k ks)
  obtain w1 where i: "nbf_Insert H bf k w = (Return None, w1)"
    and l: "nbf_Inserts H bf ks w1 = (Return None, w')"
    using Cons.prems(1)
    by (cases "nbf_Insert H bf k w") (auto split: outcome.splits option.splits)
  show ?case
  proof (cases "key = k")
    case True
    show ?thesis
    proof
      assume "key = []"
      then have "nbf_Insert H bf k w = (Panics IndexOutOfRange, w)"
        using True Cons.prems(2) by (simp add: nbf_Insert_def hashEntry_empty)
      then show False using i by simp
    qed
  next
    case False
    then show ?thesis using Cons.IH [OF l Cons.prems(2)] Cons.prems(3) by simp
  qed
qed

lemma nbf_Lookup_loop_cong:
  "heap w' (nbf_bv bf) = heap w (nbf_bv bf) \<Longrightarrow>
   fst (nbf_Lookup_loop bf hs w') = fst (nbf_Lookup_loop bf hs w)"
proof (induction hs)
  case Nil
  then show ?case by simp
next
  case (Cons h hs)
  let ?p = "h AND (nbf_size bf - 1)"
  have e: "fst (nbf_getByte bf ?p w') = fst (nbf_getByte bf ?p w)"
    using Cons.prems by (simp add: nbf_getByte_def)
  obtain r where g: "nbf_getByte bf ?p w = (r, w)"
    using nbf_getByte_world [of bf ?p w] by (cases "nbf_getByte bf ?p w") simp
  have g': "nbf_getByte bf ?p w' = (r, w')"
    using nbf_getByte_world [of bf ?p w'] e g by (cases "nbf_getByte bf ?p w'") simp
  show ?case using g g' Cons by (auto split: outcome.splits prod.splits)
qed

lemma nbf_Lookup_cong:
  assumes h: "heap w' (nbf_bv bf) = heap w (nbf_bv bf)"
  shows "fst (nbf_Lookup H bf key w') = fst (nbf_Lookup H bf key w)"
proof (cases "hashEntry H key (nbf_hf bf)")
  case (Return hs)
  show ?thesis using nbf_Lookup_loop_cong [OF h, of hs] by (simp add: nbf_Lookup_def Return)
next
  case (Panics p)
  then show ?thesis by (simp add: nbf_Lookup_def)
qed

lemma nbf_Lookup_fresh:
  assumes n: "NewNaiveBloomFilter sz h w0 = (Return (Inr bf), w)" and k: "key \<noteq> []" and h: "0 < h"
  shows "nbf_Lookup H bf key w = (Return (False, None), w)"
proof -
  have v: "nbf_valid bf w" using n by (rule New_nbf_valid)
  have hf: "nbf_hf bf = h" using n
    by (auto simp: NewNaiveBloomFilter_def make_slice_def alloc_def split: if_splits)
  obtain m where m: "nat h = Suc m" using h by (cases "nat h") auto
  have he: "hashEntry H key (nbf_hf bf) = Return (H key # replicate m (H key))"
    using hashEntry_nonempty [OF k, of h H] h by (simp add: hf m)
  let ?p = "H key AND (nbf_size bf - 1)"
  have i: "?p \<le> nbf_size bf - 1" by (rule masked_le)
  obtain b where g: "nbf_getByte bf ?p w = (Return (b, None), w)"
    using nbf_getByte_returns [OF v i] by blast
  have "\<not> nbf_reads_set bf w ?p" using n by (rule nbf_fresh_unset)
  then have "\<not> b" using g by (simp add: nbf_reads_set_def)
  then show ?thesis using g by (simp add: nbf_Lookup_def he)
qed

lemma New_nbf_shape:
  assumes n: "NewNaiveBloomFilter sz h w0 = (Return (Inr bf), w1)"
  shows "bf = \<lparr>nbf_bv = next_ref w0, nbf_size = sz, nbf_hf = h\<rparr>"
    and "heap w1 (nbf_bv bf) = replicate (unat sz) 0"
    and "NewNaiveBloomFilter sz h w =
          (Return (Inr \<lparr>nbf_bv = next_ref w, nbf_size = sz, nbf_hf = h\<rparr>),
           w\<lparr>heap := (heap w)(next_ref w := replicate (unat sz) 0), next_ref := Suc (next_ref w)\<rparr>)"
  using n
  by (auto simp: NewNaiveBloomFilter_def make_slice_def alloc_def split: if_splits)

lemma word_pred_neq: "(sz :: uint64) \<noteq> word_of_int (int (unat sz) - 1)"
proof -
  have "word_of_int (int (unat sz) - 1) = sz - 1" by simp
  then show ?thesis by simp
qed

lemma nbf_setByte_locked: "locked (snd (nbf_setByte bf idx w)) = locked w"
  by (simp add: nbf_setByte_def)

lemma nbf_Insert_loop_locked: "locked (snd (nbf_Insert_loop bf hs w)) = locked w"
proof (induction hs arbitrary: w)
  case Nil
  then show ?case by simp
next
  case (Cons h hs)
  obtain r w' where s: "nbf_setByte bf (h AND (nbf_size bf - 1)) w = (r, w')"
    by (cases "nbf_setByte bf (h AND (nbf_size bf - 1)) w")
  have m: "locked w' = locked w"
    using nbf_setByte_locked [of bf "h AND (nbf_size bf - 1)" w] s by simp
  show ?case using s m Cons.IH [of w']
    by (auto split: outcome.splits option.splits)
qed

lemma nbf_Insert_locked: "locked (snd (nbf_Insert H bf key w)) = locked w"
  by (cases "hashEntry H key (nbf_hf bf)") (simp_all add: nbf_Insert_def nbf_Insert_loop_locked)

lemma nbf_Inserts_locked: "locked (snd (nbf_Inserts H bf keys w)) = locked w"
proof (induction keys arbitrary: w)
  case Nil
  then show ?case by simp
next
  case (Cons k ks)
  obtain r w1 where i: "nbf_Insert H bf k w = (r, w1)" by (cases "nbf_Insert H bf k w")
  have m: "locked w1 = locked w" using nbf_Insert_locked [of H bf k w] i by simp
  show ?case using i m Cons.IH [of w1] by (auto split: outcome.splits option.splits)
qed

section \<open>The filters of size 64 that the constructors return\<close>

text \<open>
  Each constructor, called in the empty world for size 64, two hashes and (where it
  takes shards) one shard, returns a filter whose array has the first reference.
\<close>

lemma New_sbf_64: "NewStripedBloomFilter 64 2 1 empty_world =
   (Return (Inr \<lparr>sbf_bv = 0, sbf_size = 64, sbf_shards = 1, sbf_hf = 2, sbf_mutArr = 1, sbf_shardLen = 64\<rparr>),
    \<lparr>heap = (\<lambda>r. [])(0 := [0]), next_ref = 1, files = (\<lambda>f. None), locked = (\<lambda>f. False)\<rparr>)"
  by (simp add: NewStripedBloomFilter_def make_slice_def alloc_def empty_world_def)

lemma New_bf_64: "NewBloomFilter 64 2 empty_world =
   (Return (Inr \<lparr>bf_bv = 0, bf_size = 64, bf_hf = 2\<rparr>),
    \<lparr>heap = (\<lambda>r. [])(0 := [0]), next_ref = 1, files = (\<lambda>f. None), locked = (\<lambda>f. False)\<rparr>)"
  by (simp add: NewBloomFilter_def make_slice_def alloc_def empty_world_def)

lemma New_nsbf_64: "NewNaiveStripedBloomFilter 64 2 1 empty_world =
   (Return (Inr \<lparr>nsbf_bv = 0, nsbf_size = 64, nsbf_shards = 1, nsbf_hf = 2, nsbf_mutArr = 1, nsbf_shardLen = 64\<rparr>),
    \<lparr>heap = (\<lambda>r. [])(0 := replicate 64 0), next_ref = 1, files = (\<lambda>f. None), locked = (\<lambda>f. False)\<rparr>)"
  by (simp add: NewNaiveStripedBloomFilter_def make_slice_def alloc_def empty_world_def)

lemma New_nbf_64: "NewNaiveBloomFilter 64 2 empty_world =
   (Return (Inr \<lparr>nbf_bv = 0, nbf_size = 64, nbf_hf = 2\<rparr>),
    \<lparr>heap = (\<lambda>r. [])(0 := replicate 64 0), next_ref = 1, files = (\<lambda>f. None), locked = (\<lambda>f. False)\<rparr>)"
  by (simp add: NewNaiveBloomFilter_def make_slice_def alloc_def empty_world_def)

section \<open>C1: the positions derived for one key\<close>

text \<open>
  C1 says that for more than one hash the positions derived for a key (the hashes of
  \<open>hashEntry\<close>, each masked with \<open>size - 1\<close>) are not all identical. The code does the
  opposite: the mask \<open>0xFF\<close> leaves the last byte as it is, every round hashes the same
  bytes, and for every non-empty key and every \<open>k > 1\<close> all \<open>k\<close> positions are the same
  position, whatever the hash function and the size are.
\<close>

theorem hashEntry_positions_all_identical:
  "entry \<noteq> [] \<Longrightarrow> 1 < k \<Longrightarrow>
   \<exists>hs. hashEntry H entry k = Return hs \<and> length hs = nat k \<and>
        (\<forall>i < nat k. \<forall>j < nat k. hs ! i AND (sz - 1) = hs ! j AND (sz - 1))"
  by (simp add: hashEntry_nonempty)

theorem hashEntry_positions_all_identical_witness:
  "\<forall>H sz. \<exists>hs. hashEntry H [0x61] 2 = Return hs \<and> length hs = 2 \<and>
        (\<forall>i < 2. \<forall>j < 2. hs ! i AND (sz - 1) = hs ! j AND (sz - 1))"
  using hashEntry_positions_all_identical [of "[0x61]" 2] by simp

section \<open>C2: saving a filter and loading it again\<close>

text \<open>
  C2 says that Write followed by Load into a fresh zero filter of the same size gives a
  filter with the same Lookup results for the inserted keys. The code does not do this.
  For NaiveBloomFilter: after any inserts that returned into a filter the constructor
  returned, Write produces one digit for each position and no line terminator; Load
  reads \<open>len(bv) - 1\<close> as the size of the file, one less than the number of positions,
  so it returns the size-mismatch error and leaves the fresh filter as it was; Lookup of
  an inserted key is \<open>true\<close> on the original and \<open>false\<close> on the loaded filter.
\<close>

theorem saved_filter_is_rejected_by_Load:
  assumes n: "NewNaiveBloomFilter sz hf w0 = (Return (Inr bf), w1)"
    and i: "nbf_Inserts H bf keys w1 = (Return None, w2)"
    and k: "key \<in> set keys" and h: "0 < hf" and l: "\<not> locked w2 f"
  shows "\<exists>w3 bf2 w4.
     nbf_Write bf f w2 = (Return None, w3) \<and>
     NewNaiveBloomFilter sz hf w3 = (Return (Inr bf2), w4) \<and>
     nbf_Load bf2 f w4 = (Return (Some (SizeMismatch (int (unat sz) - 1) sz)), w4) \<and>
     nbf_Lookup H bf key w4 = (Return (True, None), w4) \<and>
     nbf_Lookup H bf2 key w4 = (Return (False, None), w4)"
proof -
  have bf: "nbf_size bf = sz" "nbf_hf bf = hf" using New_nbf_shape(1) [OF n] by simp_all
  have v1: "nbf_valid bf w1" using n by (rule New_nbf_valid)
  have f1: "set (heap w1 (nbf_bv bf)) \<subseteq> {0, 1}" using New_nbf_shape(2) [OF n] by auto
  have v2: "nbf_valid bf w2" using nbf_Inserts_valid [OF v1, of H keys] i by simp
  have f2: "set (heap w2 (nbf_bv bf)) \<subseteq> {0, 1}" using nbf_Inserts_flags [OF f1, of H keys] i by simp
  have len: "length (heap w2 (nbf_bv bf)) = unat sz" and ref: "nbf_bv bf < next_ref w2"
    using v2 by (simp_all add: nbf_valid_def bf)
  define content where "content = map (\<lambda>x. 0x30 + x) (heap w2 (nbf_bv bf))"
  define w3 where "w3 = w2\<lparr>files := (files w2)(f \<mapsto> content)\<rparr>"
  define bf2 where "bf2 = \<lparr>nbf_bv = next_ref w3, nbf_size = sz, nbf_hf = hf\<rparr>"
  define w4 where "w4 = w3\<lparr>heap := (heap w3)(next_ref w3 := replicate (unat sz) 0),
                              next_ref := Suc (next_ref w3)\<rparr>"
  have wr: "nbf_Write bf f w2 = (Return None, w3)"
    unfolding w3_def content_def by (rule nbf_Write_flags [OF v2 f2 l])
  have n2: "NewNaiveBloomFilter sz hf w3 = (Return (Inr bf2), w4)"
    unfolding bf2_def w4_def by (rule New_nbf_shape(3) [OF n])
  have rb: "ReadBytes content 0x0A = content"
    unfolding content_def by (rule ReadBytes_no_delim [OF flags_no_newline [OF f2]])
  have fl: "files w4 f = Some content" by (simp add: w4_def w3_def)
  have lr: "length (ReadBytes content 0x0A) = unat sz" by (simp add: rb) (simp add: content_def len)
  have ms: "nbf_size bf2 \<noteq> word_of_int (int (length (ReadBytes content 0x0A)) - 1)"
    unfolding lr using word_pred_neq [of sz] by (simp add: bf2_def)
  have ld: "nbf_Load bf2 f w4 = (Return (Some (SizeMismatch (int (unat sz) - 1) sz)), w4)"
    using nbf_Load_mismatch [OF fl ms] unfolding lr by (simp add: bf2_def)
  have hp: "heap w4 (nbf_bv bf) = heap w2 (nbf_bv bf)" using ref by (simp add: w4_def w3_def)
  have "nbf_Lookup H bf key w2 = (Return (True, None), w2)"
    by (rule nbf_Inserts_then_Lookup [OF v1 i k])
  then have "fst (nbf_Lookup H bf key w4) = Return (True, None)"
    using nbf_Lookup_cong [OF hp, of H key] by simp
  then have lk: "nbf_Lookup H bf key w4 = (Return (True, None), w4)"
    using nbf_Lookup_world [of H bf key w4] by (cases "nbf_Lookup H bf key w4") simp
  have ne: "key \<noteq> []" using i h k by (intro nbf_Inserts_nonempty [of H bf keys w1 w2]) (simp_all add: bf)
  have lk2: "nbf_Lookup H bf2 key w4 = (Return (False, None), w4)"
    by (rule nbf_Lookup_fresh [OF n2 ne h])
  show ?thesis using wr n2 ld lk lk2 by blast
qed

theorem saved_filter_is_rejected_by_Load_witness:
  "\<forall>H. \<exists>bf w1 w2 w3 bf2 w4.
     NewNaiveBloomFilter 64 2 empty_world = (Return (Inr bf), w1) \<and>
     nbf_Inserts H bf [[0x61], [0x62, 0x63]] w1 = (Return None, w2) \<and>
     nbf_Write bf ''bloom'' w2 = (Return None, w3) \<and>
     NewNaiveBloomFilter 64 2 w3 = (Return (Inr bf2), w4) \<and>
     nbf_Load bf2 ''bloom'' w4 = (Return (Some (SizeMismatch 63 64)), w4) \<and>
     nbf_Lookup H bf [0x61] w4 = (Return (True, None), w4) \<and>
     nbf_Lookup H bf2 [0x61] w4 = (Return (False, None), w4)"
proof
  fix H :: "byte list \<Rightarrow> uint64"
  obtain bf w1 where n: "NewNaiveBloomFilter 64 2 empty_world = (Return (Inr bf), w1)"
    and hf: "0 \<le> nbf_hf bf"
    using New_nbf_64 by simp
  have v1: "nbf_valid bf w1" using n by (rule New_nbf_valid)
  obtain w2 where i: "nbf_Inserts H bf [[0x61], [0x62, 0x63]] w1 = (Return None, w2)"
    using nbf_Inserts_ok [OF v1 hf, of "[[0x61], [0x62, 0x63]]" H] by auto
  have "locked w1 = (\<lambda>f. False)" using n New_nbf_64 by (simp add: empty_world_def)
  then have l: "\<not> locked w2 ''bloom''" using nbf_Inserts_locked [of H bf "[[0x61], [0x62, 0x63]]" w1] i by simp
  have k: "[0x61] \<in> set [[0x61], [0x62, 0x63 :: byte]]" by simp
  have h: "(0::int) < 2" by simp
  show "\<exists>bf w1 w2 w3 bf2 w4.
     NewNaiveBloomFilter 64 2 empty_world = (Return (Inr bf), w1) \<and>
     nbf_Inserts H bf [[0x61], [0x62, 0x63]] w1 = (Return None, w2) \<and>
     nbf_Write bf ''bloom'' w2 = (Return None, w3) \<and>
     NewNaiveBloomFilter 64 2 w3 = (Return (Inr bf2), w4) \<and>
     nbf_Load bf2 ''bloom'' w4 = (Return (Some (SizeMismatch 63 64)), w4) \<and>
     nbf_Lookup H bf [0x61] w4 = (Return (True, None), w4) \<and>
     nbf_Lookup H bf2 [0x61] w4 = (Return (False, None), w4)"
    using saved_filter_is_rejected_by_Load [OF n i k h l] n i
    by (simp del: nbf_Inserts.simps)
qed

section \<open>C3: Load and the size of the file\<close>

text \<open>
  C3 says that every Load returns a size-mismatch error when the size in the file
  differs from the size of the filter. Load of StripedBloomFilter compares nothing: it
  never returns that error, whatever the filter, the file and the world are. The
  theorem after it evaluates the call for a filter of size 64 and a file of
  declared size 2: it returns \<open>nil\<close>, and the array of the caller's filter is untouched.
\<close>

theorem sbf_Load_compares_no_size:
  "fst (sbf_Load bf f w) \<noteq> Return (Some (SizeMismatch a b))"
  by (rule sbf_Load_result)

theorem sbf_Load_compares_no_size_witness:
  "\<exists>bf w. NewStripedBloomFilter 64 2 1 empty_world = (Return (Inr bf), w) \<and>
     ReadBytes [0x30, 0x31, 0x0A] 0x0A = [0x30, 0x31, 0x0A] \<and>
     fst (sbf_Load bf ''bloom'' (w\<lparr>files := (files w)(''bloom'' \<mapsto> [0x30, 0x31, 0x0A])\<rparr>))
       \<noteq> Return (Some (SizeMismatch 2 64)) \<and>
     fst (sbf_Load bf ''bloom'' (w\<lparr>files := (files w)(''bloom'' \<mapsto> [0x30, 0x31, 0x0A])\<rparr>))
       = Return None \<and>
     heap (snd (sbf_Load bf ''bloom'' (w\<lparr>files := (files w)(''bloom'' \<mapsto> [0x30, 0x31, 0x0A])\<rparr>))) (sbf_bv bf)
       = [0]"
proof -
  define bf where "bf = \<lparr>sbf_bv = 0, sbf_size = 64, sbf_shards = 1, sbf_hf = 2, sbf_mutArr = 1, sbf_shardLen = 64\<rparr>"
  define w :: "uint64 world" where
    "w = \<lparr>heap = (\<lambda>r. [])(0 := [0]), next_ref = 1, files = (\<lambda>f. None), locked = (\<lambda>f. False)\<rparr>"
  have n: "NewStripedBloomFilter 64 2 1 empty_world = (Return (Inr bf), w)"
    unfolding bf_def w_def by (rule New_sbf_64)
  show ?thesis
    using sbf_Load_compares_no_size [of bf "''bloom''" "w\<lparr>files := (files w)(''bloom'' \<mapsto> [0x30, 0x31, 0x0A])\<rparr>" 2 64]
    by (intro exI [of _ bf] exI [of _ w])
       (simp add: n, simp add: sbf_Load_def bf_def w_def make_slice_def alloc_def sbf_setBit_def Let_def)
qed

section \<open>C4: construction with zero shards\<close>

text \<open>
  C4 says that every violation of the constraints on the arguments makes construction
  return an error, also for \<open>shardCount = 0\<close>. NewNaiveStripedBloomFilter has no test
  for zero shards: for every size that passes the checks on the size, zero shards reach
  \<open>bf.size % bf.shards\<close> and the call panics (division by zero), where
  NewStripedBloomFilter returns "Shards must be nonzero".
\<close>

theorem NewNaiveStripedBloomFilter_zero_shards:
  "64 \<le> sz \<Longrightarrow> sz AND (sz - 1) = 0 \<Longrightarrow>
   NewNaiveStripedBloomFilter sz h 0 w = (Panics DivideByZero, w) \<and>
   NewStripedBloomFilter sz h 0 u = (Return (Inl ShardsZero), u)"
  by (simp add: NewNaiveStripedBloomFilter_def NewStripedBloomFilter_def not_less [symmetric]
           del: not_less)

theorem NewNaiveStripedBloomFilter_zero_shards_witness:
  "NewNaiveStripedBloomFilter 64 2 0 empty_world = (Panics DivideByZero, empty_world) \<and>
   NewStripedBloomFilter 64 2 0 empty_world = (Return (Inl ShardsZero), empty_world)"
  using NewNaiveStripedBloomFilter_zero_shards [of 64 2 empty_world empty_world] by simp

section \<open>C5: single positions from \<open>2^63\<close> upwards\<close>

text \<open>
  C5 says that the single-position set returns an out-of-range error exactly when the
  position is not below the size, for all 64-bit positions. The setters of
  NaiveBloomFilter compare \<open>int(idx)\<close> with the length: a position from \<open>2^63\<close> upwards
  is negative as an \<open>int\<close>, passes the test, and the index expression panics. The getter
  of the same filter returns the error for the same position.
\<close>

theorem nbf_setByte_beyond_int_range:
  assumes v: "nbf_valid bf w" and i: "2 ^ 63 \<le> idx"
  shows "nbf_setByte bf idx w = (Panics IndexOutOfRange, w) \<and>
         nbf_setByteAsync bf idx w = (Panics IndexOutOfRange, w) \<and>
         nbf_getByte bf idx w = (Return (False, Some IndexTooLarge), w) \<and>
         nbf_size bf \<le> idx"
proof -
  have nn: "0 \<le> sint (nbf_size bf)" and len: "length (heap w (nbf_bv bf)) = unat (nbf_size bf)"
    using v by (simp_all add: nbf_valid_def)
  have u: "2 ^ 63 \<le> unat idx" using i by (simp add: word_le_nat_alt)
  have neg: "sint idx < 0" using u by (rule sint_big)
  have small: "unat (nbf_size bf) < 2 ^ 63" using sint_nonneg [OF nn] by simp
  have a: "\<not> int (length (heap w (nbf_bv bf))) \<le> sint idx" using neg by simp
  have b: "\<not> unat idx < length (heap w (nbf_bv bf))" using u small by (simp add: len)
  have c: "nbf_size bf \<le> idx" using u small by (simp add: word_le_nat_alt)
  show ?thesis using a b c
    by (simp add: nbf_setByte_def nbf_setByteAsync_def nbf_getByte_def)
qed

theorem nbf_setByte_beyond_int_range_witness:
  "\<exists>bf w. NewNaiveBloomFilter 64 2 empty_world = (Return (Inr bf), w) \<and>
     nbf_setByte bf 9223372036854775808 w = (Panics IndexOutOfRange, w) \<and>
     nbf_setByteAsync bf 9223372036854775808 w = (Panics IndexOutOfRange, w) \<and>
     nbf_getByte bf 9223372036854775808 w = (Return (False, Some IndexTooLarge), w) \<and>
     nbf_size bf \<le> 9223372036854775808"
  using nbf_setByte_beyond_int_range [OF New_nbf_valid [OF New_nbf_64], of 9223372036854775808]
        New_nbf_64
  by simp

section \<open>C6: no false negatives\<close>

text \<open>
  C6: for every filter variant, after a sequence of Insert calls that contains
  Insert(key), run without concurrent writers, Lookup(key) on the same filter returns
  true and no error. Stated for each of the four filters in a valid state: the sequence
  of calls returns (every call returns \<open>nil\<close>) whenever the number of hashes is not
  negative and no key of the sequence is empty, and whenever the sequence has returned,
  Lookup of each of its keys returns \<open>(true, nil)\<close> and leaves the world as it is.
\<close>

theorem inserted_keys_are_found:
  assumes "sbf_valid b1 w1" and "bf_valid b2 w2" and "nsbf_valid b3 w3" and "nbf_valid b4 w4"
    and "key \<in> set keys"
  shows
    "((0 \<le> sbf_hf b1 \<and> (\<forall>k \<in> set keys. k \<noteq> []) \<longrightarrow>
         (\<exists>w'. sbf_Inserts H b1 keys w1 = (Return None, w'))) \<and>
      (\<forall>w'. sbf_Inserts H b1 keys w1 = (Return None, w') \<longrightarrow>
         sbf_Lookup H b1 key w' = (Return (True, None), w'))) \<and>
     ((0 \<le> bf_hf b2 \<and> (\<forall>k \<in> set keys. k \<noteq> []) \<longrightarrow>
         (\<exists>w'. bf_Inserts H b2 keys w2 = (Return None, w'))) \<and>
      (\<forall>w'. bf_Inserts H b2 keys w2 = (Return None, w') \<longrightarrow>
         bf_Lookup H b2 key w' = (Return (True, None), w'))) \<and>
     ((0 \<le> nsbf_hf b3 \<and> (\<forall>k \<in> set keys. k \<noteq> []) \<longrightarrow>
         (\<exists>w'. nsbf_Inserts H b3 keys w3 = (Return None, w'))) \<and>
      (\<forall>w'. nsbf_Inserts H b3 keys w3 = (Return None, w') \<longrightarrow>
         nsbf_Lookup H b3 key w' = (Return (True, None), w'))) \<and>
     ((0 \<le> nbf_hf b4 \<and> (\<forall>k \<in> set keys. k \<noteq> []) \<longrightarrow>
         (\<exists>w'. nbf_Inserts H b4 keys w4 = (Return None, w'))) \<and>
      (\<forall>w'. nbf_Inserts H b4 keys w4 = (Return None, w') \<longrightarrow>
         nbf_Lookup H b4 key w' = (Return (True, None), w')))"
  using sbf_no_false_negative [OF assms(1) assms(5), of H]
        bf_no_false_negative [OF assms(2) assms(5), of H]
        nsbf_no_false_negative [OF assms(3) assms(5), of H]
        nbf_no_false_negative [OF assms(4) assms(5), of H]
  by (intro conjI) blast+

theorem inserted_keys_are_found_witness:
  "\<forall>H. \<exists>b1 w1 b2 w2 b3 w3 b4 w4.
     NewStripedBloomFilter 64 2 1 empty_world = (Return (Inr b1), w1) \<and>
     NewBloomFilter 64 2 empty_world = (Return (Inr b2), w2) \<and>
     NewNaiveStripedBloomFilter 64 2 1 empty_world = (Return (Inr b3), w3) \<and>
     NewNaiveBloomFilter 64 2 empty_world = (Return (Inr b4), w4) \<and>
     (\<exists>w'. sbf_Inserts H b1 [[0x61], [0x62, 0x63]] w1 = (Return None, w') \<and>
           sbf_Lookup H b1 [0x62, 0x63] w' = (Return (True, None), w')) \<and>
     (\<exists>w'. bf_Inserts H b2 [[0x61], [0x62, 0x63]] w2 = (Return None, w') \<and>
           bf_Lookup H b2 [0x62, 0x63] w' = (Return (True, None), w')) \<and>
     (\<exists>w'. nsbf_Inserts H b3 [[0x61], [0x62, 0x63]] w3 = (Return None, w') \<and>
           nsbf_Lookup H b3 [0x62, 0x63] w' = (Return (True, None), w')) \<and>
     (\<exists>w'. nbf_Inserts H b4 [[0x61], [0x62, 0x63]] w4 = (Return None, w') \<and>
           nbf_Lookup H b4 [0x62, 0x63] w' = (Return (True, None), w'))"
proof
  fix H :: "byte list \<Rightarrow> uint64"
  note n = New_sbf_64 New_bf_64 New_nsbf_64 New_nbf_64
  have k: "[0x62, 0x63] \<in> set [[0x61], [0x62, 0x63 :: byte]]" by simp
  have ne: "\<forall>k \<in> set [[0x61], [0x62, 0x63 :: byte]]. k \<noteq> []" by simp
  show "\<exists>b1 w1 b2 w2 b3 w3 b4 w4.
     NewStripedBloomFilter 64 2 1 empty_world = (Return (Inr b1), w1) \<and>
     NewBloomFilter 64 2 empty_world = (Return (Inr b2), w2) \<and>
     NewNaiveStripedBloomFilter 64 2 1 empty_world = (Return (Inr b3), w3) \<and>
     NewNaiveBloomFilter 64 2 empty_world = (Return (Inr b4), w4) \<and>
     (\<exists>w'. sbf_Inserts H b1 [[0x61], [0x62, 0x63]] w1 = (Return None, w') \<and>
           sbf_Lookup H b1 [0x62, 0x63] w' = (Return (True, None), w')) \<and>
     (\<exists>w'. bf_Inserts H b2 [[0x61], [0x62, 0x63]] w2 = (Return None, w') \<and>
           bf_Lookup H b2 [0x62, 0x63] w' = (Return (True, None), w')) \<and>
     (\<exists>w'. nsbf_Inserts H b3 [[0x61], [0x62, 0x63]] w3 = (Return None, w') \<and>
           nsbf_Lookup H b3 [0x62, 0x63] w' = (Return (True, None), w')) \<and>
     (\<exists>w'. nbf_Inserts H b4 [[0x61], [0x62, 0x63]] w4 = (Return None, w') \<and>
           nbf_Lookup H b4 [0x62, 0x63] w' = (Return (True, None), w'))"
    using inserted_keys_are_found [OF New_sbf_valid [OF New_sbf_64] New_bf_valid [OF New_bf_64]
        New_nsbf_valid [OF New_nsbf_64] New_nbf_valid [OF New_nbf_64] k, of H] ne
    unfolding n
    by (simp del: sbf_Inserts.simps bf_Inserts.simps nsbf_Inserts.simps nbf_Inserts.simps) blast
qed

section \<open>C7: the error branch of the single-position operations is unreachable\<close>

text \<open>
  C7: in a validly constructed filter every position derived inside Insert and Lookup
  (a 64-bit hash masked with \<open>size - 1\<close>) is below \<open>size\<close>; Insert and Lookup never
  return an error; and positions up to \<open>size - 1\<close> are reachable and succeed. Stated for
  the four filters in a valid state: every masked value \<open>h\<close> is below the size, Insert
  and Lookup return no error \<open>e\<close> for any key, and every position \<open>p\<close> below the size is
  the masked value of the hash \<open>p\<close> itself, is set without error and is read without
  error.
\<close>

theorem derived_positions_in_range:
  assumes "sbf_valid b1 w1" and "bf_valid b2 w2" and "nsbf_valid b3 w3" and "nbf_valid b4 w4"
  shows
    "(h AND (sbf_size b1 - 1) < sbf_size b1 \<and>
      fst (sbf_Insert H b1 key w1) \<noteq> Return (Some e) \<and>
      fst (sbf_Lookup H b1 key w1) \<noteq> Return (b, Some e) \<and>
      (p < sbf_size b1 \<longrightarrow> p AND (sbf_size b1 - 1) = p \<and>
         fst (sbf_setBit b1 p w1) = Return None \<and> (\<exists>r. sbf_getBit b1 p w1 = (Return (r, None), w1)))) \<and>
     (h AND (bf_size b2 - 1) < bf_size b2 \<and>
      fst (bf_Insert H b2 key w2) \<noteq> Return (Some e) \<and>
      fst (bf_Lookup H b2 key w2) \<noteq> Return (b, Some e) \<and>
      (p < bf_size b2 \<longrightarrow> p AND (bf_size b2 - 1) = p \<and>
         fst (bf_setBit b2 p w2) = Return None \<and> (\<exists>r. bf_getBit b2 p w2 = (Return (r, None), w2)))) \<and>
     (h AND (nsbf_size b3 - 1) < nsbf_size b3 \<and>
      fst (nsbf_Insert H b3 key w3) \<noteq> Return (Some e) \<and>
      fst (nsbf_Lookup H b3 key w3) \<noteq> Return (b, Some e) \<and>
      (p < nsbf_size b3 \<longrightarrow> p AND (nsbf_size b3 - 1) = p \<and>
         fst (nsbf_setByte b3 p w3) = Return None \<and> (\<exists>r. nsbf_getByte b3 p w3 = (Return (r, None), w3)))) \<and>
     (h AND (nbf_size b4 - 1) < nbf_size b4 \<and>
      fst (nbf_Insert H b4 key w4) \<noteq> Return (Some e) \<and>
      fst (nbf_Lookup H b4 key w4) \<noteq> Return (b, Some e) \<and>
      (p < nbf_size b4 \<longrightarrow> p AND (nbf_size b4 - 1) = p \<and>
         fst (nbf_setByte b4 p w4) = Return None \<and> (\<exists>r. nbf_getByte b4 p w4 = (Return (r, None), w4))))"
  using sbf_positions_in_range [OF assms(1)] bf_positions_in_range [OF assms(2)]
        nsbf_positions_in_range [OF assms(3)] nbf_positions_in_range [OF assms(4)]
  by (intro conjI) blast+

theorem derived_positions_in_range_witness:
  "\<forall>H key. \<exists>b1 w1 b2 w2 b3 w3 b4 w4.
     NewStripedBloomFilter 64 2 1 empty_world = (Return (Inr b1), w1) \<and>
     NewBloomFilter 64 2 empty_world = (Return (Inr b2), w2) \<and>
     NewNaiveStripedBloomFilter 64 2 1 empty_world = (Return (Inr b3), w3) \<and>
     NewNaiveBloomFilter 64 2 empty_world = (Return (Inr b4), w4) \<and>
     H key AND (sbf_size b1 - 1) < 64 \<and> H key AND (bf_size b2 - 1) < 64 \<and>
     H key AND (nsbf_size b3 - 1) < 64 \<and> H key AND (nbf_size b4 - 1) < 64 \<and>
     fst (sbf_Insert H b1 key w1) \<noteq> Return (Some IndexTooLarge) \<and>
     fst (bf_Insert H b2 key w2) \<noteq> Return (Some IndexTooLarge) \<and>
     fst (nsbf_Insert H b3 key w3) \<noteq> Return (Some IndexTooLarge) \<and>
     fst (nbf_Insert H b4 key w4) \<noteq> Return (Some IndexTooLarge) \<and>
     fst (sbf_Lookup H b1 key w1) \<noteq> Return (False, Some IndexTooLarge) \<and>
     fst (bf_Lookup H b2 key w2) \<noteq> Return (False, Some IndexTooLarge) \<and>
     fst (nsbf_Lookup H b3 key w3) \<noteq> Return (False, Some IndexTooLarge) \<and>
     fst (nbf_Lookup H b4 key w4) \<noteq> Return (False, Some IndexTooLarge) \<and>
     63 AND (sbf_size b1 - 1) = 63 \<and>
     fst (sbf_setBit b1 63 w1) = Return None \<and> fst (bf_setBit b2 63 w2) = Return None \<and>
     fst (nsbf_setByte b3 63 w3) = Return None \<and> fst (nbf_setByte b4 63 w4) = Return None \<and>
     (\<exists>r. sbf_getBit b1 63 w1 = (Return (r, None), w1)) \<and>
     (\<exists>r. bf_getBit b2 63 w2 = (Return (r, None), w2)) \<and>
     (\<exists>r. nsbf_getByte b3 63 w3 = (Return (r, None), w3)) \<and>
     (\<exists>r. nbf_getByte b4 63 w4 = (Return (r, None), w4))"
proof (intro allI)
  fix H :: "byte list \<Rightarrow> uint64" and key :: "byte list"
  note n = New_sbf_64 New_bf_64 New_nsbf_64 New_nbf_64
  show "\<exists>b1 w1 b2 w2 b3 w3 b4 w4.
     NewStripedBloomFilter 64 2 1 empty_world = (Return (Inr b1), w1) \<and>
     NewBloomFilter 64 2 empty_world = (Return (Inr b2), w2) \<and>
     NewNaiveStripedBloomFilter 64 2 1 empty_world = (Return (Inr b3), w3) \<and>
     NewNaiveBloomFilter 64 2 empty_world = (Return (Inr b4), w4) \<and>
     H key AND (sbf_size b1 - 1) < 64 \<and> H key AND (bf_size b2 - 1) < 64 \<and>
     H key AND (nsbf_size b3 - 1) < 64 \<and> H key AND (nbf_size b4 - 1) < 64 \<and>
     fst (sbf_Insert H b1 key w1) \<noteq> Return (Some IndexTooLarge) \<and>
     fst (bf_Insert H b2 key w2) \<noteq> Return (Some IndexTooLarge) \<and>
     fst (nsbf_Insert H b3 key w3) \<noteq> Return (Some IndexTooLarge) \<and>
     fst (nbf_Insert H b4 key w4) \<noteq> Return (Some IndexTooLarge) \<and>
     fst (sbf_Lookup H b1 key w1) \<noteq> Return (False, Some IndexTooLarge) \<and>
     fst (bf_Lookup H b2 key w2) \<noteq> Return (False, Some IndexTooLarge) \<and>
     fst (nsbf_Lookup H b3 key w3) \<noteq> Return (False, Some IndexTooLarge) \<and>
     fst (nbf_Lookup H b4 key w4) \<noteq> Return (False, Some IndexTooLarge) \<and>
     63 AND (sbf_size b1 - 1) = 63 \<and>
     fst (sbf_setBit b1 63 w1) = Return None \<and> fst (bf_setBit b2 63 w2) = Return None \<and>
     fst (nsbf_setByte b3 63 w3) = Return None \<and> fst (nbf_setByte b4 63 w4) = Return None \<and>
     (\<exists>r. sbf_getBit b1 63 w1 = (Return (r, None), w1)) \<and>
     (\<exists>r. bf_getBit b2 63 w2 = (Return (r, None), w2)) \<and>
     (\<exists>r. nsbf_getByte b3 63 w3 = (Return (r, None), w3)) \<and>
     (\<exists>r. nbf_getByte b4 63 w4 = (Return (r, None), w4))"
    using derived_positions_in_range [OF New_sbf_valid [OF New_sbf_64] New_bf_valid [OF New_bf_64]
        New_nsbf_valid [OF New_nsbf_64] New_nbf_valid [OF New_nbf_64],
        of "H key" H key IndexTooLarge False 63]
    unfolding n
    by simp
qed

section \<open>C8: positions start unset and are never cleared\<close>

text \<open>
  C8: a freshly constructed filter has every position unset, and Insert, InsertAsync,
  Lookup, LookupAsync, Load and Write keep every position that reads as set. Stated for
  the four filters: no position \<open>q\<close> reads as set in the filter a constructor returns,
  and in a valid state a position \<open>p\<close> that reads as set before one of the six calls
  reads as set in the world the call leaves (also when the call panics or returns an
  error). The calls are run one at a time; interleaved unlocked calls are outside the
  model.
\<close>

theorem set_positions_stay_set:
  assumes "sbf_valid b1 w1" and "bf_valid b2 w2" and "nsbf_valid b3 w3" and "nbf_valid b4 w4"
  shows
    "(\<forall>f0 v0. NewStripedBloomFilter sz hf sh u = (Return (Inr f0), v0) \<longrightarrow> \<not> sbf_reads_set f0 v0 q) \<and>
     (\<forall>f0 v0. NewBloomFilter sz hf u = (Return (Inr f0), v0) \<longrightarrow> \<not> bf_reads_set f0 v0 q) \<and>
     (\<forall>f0 v0. NewNaiveStripedBloomFilter sz hf sh v = (Return (Inr f0), v0) \<longrightarrow> \<not> nsbf_reads_set f0 v0 q) \<and>
     (\<forall>f0 v0. NewNaiveBloomFilter sz hf v = (Return (Inr f0), v0) \<longrightarrow> \<not> nbf_reads_set f0 v0 q) \<and>
     (sbf_reads_set b1 w1 p \<longrightarrow>
        sbf_reads_set b1 (snd (sbf_Insert H b1 key w1)) p \<and>
        sbf_reads_set b1 (snd (sbf_InsertAsync H b1 key w1)) p \<and>
        sbf_reads_set b1 (snd (sbf_Lookup H b1 key w1)) p \<and>
        sbf_reads_set b1 (snd (sbf_LookupAsync H b1 key w1)) p \<and>
        sbf_reads_set b1 (snd (sbf_Load b1 f w1)) p \<and>
        sbf_reads_set b1 (snd (sbf_Write b1 f w1)) p) \<and>
     (bf_reads_set b2 w2 p \<longrightarrow>
        bf_reads_set b2 (snd (bf_Insert H b2 key w2)) p \<and>
        bf_reads_set b2 (snd (bf_InsertAsync H b2 key w2)) p \<and>
        bf_reads_set b2 (snd (bf_Lookup H b2 key w2)) p \<and>
        bf_reads_set b2 (snd (bf_LookupAsync H b2 key w2)) p \<and>
        bf_reads_set b2 (snd (bf_Load b2 f w2)) p \<and>
        bf_reads_set b2 (snd (bf_Write b2 f w2)) p) \<and>
     (nsbf_reads_set b3 w3 p \<longrightarrow>
        nsbf_reads_set b3 (snd (nsbf_Insert H b3 key w3)) p \<and>
        nsbf_reads_set b3 (snd (nsbf_InsertAsync H b3 key w3)) p \<and>
        nsbf_reads_set b3 (snd (nsbf_Lookup H b3 key w3)) p \<and>
        nsbf_reads_set b3 (snd (nsbf_LookupAsync H b3 key w3)) p \<and>
        nsbf_reads_set b3 (snd (nsbf_Load b3 f w3)) p \<and>
        nsbf_reads_set b3 (snd (nsbf_Write b3 f w3)) p) \<and>
     (nbf_reads_set b4 w4 p \<longrightarrow>
        nbf_reads_set b4 (snd (nbf_Insert H b4 key w4)) p \<and>
        nbf_reads_set b4 (snd (nbf_InsertAsync H b4 key w4)) p \<and>
        nbf_reads_set b4 (snd (nbf_Lookup H b4 key w4)) p \<and>
        nbf_reads_set b4 (snd (nbf_LookupAsync H b4 key w4)) p \<and>
        nbf_reads_set b4 (snd (nbf_Load b4 f w4)) p \<and>
        nbf_reads_set b4 (snd (nbf_Write b4 f w4)) p)"
  using sbf_fresh_unset bf_fresh_unset nsbf_fresh_unset nbf_fresh_unset
        sbf_operations_monotone [OF assms(1)] bf_operations_monotone [OF assms(2)]
        nsbf_operations_monotone [OF assms(3)] nbf_operations_monotone [OF assms(4)]
  by (intro conjI allI impI) blast+

theorem set_positions_stay_set_witness:
  "\<forall>H. \<exists>b1 w1 v1 b2 w2 v2 b3 w3 v3 b4 w4 v4.
     NewStripedBloomFilter 64 2 1 empty_world = (Return (Inr b1), w1) \<and>
     NewBloomFilter 64 2 empty_world = (Return (Inr b2), w2) \<and>
     NewNaiveStripedBloomFilter 64 2 1 empty_world = (Return (Inr b3), w3) \<and>
     NewNaiveBloomFilter 64 2 empty_world = (Return (Inr b4), w4) \<and>
     \<not> sbf_reads_set b1 w1 7 \<and>
     \<not> bf_reads_set b2 w2 7 \<and>
     \<not> nsbf_reads_set b3 w3 7 \<and>
     \<not> nbf_reads_set b4 w4 7 \<and>
     sbf_Insert H b1 [0x61] w1 = (Return None, v1) \<and>
     sbf_reads_set b1 v1 (H [0x61] AND 63) \<and>
     sbf_reads_set b1 (snd (sbf_Insert H b1 [0x62, 0x63] v1)) (H [0x61] AND 63) \<and>
     sbf_reads_set b1 (snd (sbf_InsertAsync H b1 [0x62, 0x63] v1)) (H [0x61] AND 63) \<and>
     sbf_reads_set b1 (snd (sbf_Lookup H b1 [0x62, 0x63] v1)) (H [0x61] AND 63) \<and>
     sbf_reads_set b1 (snd (sbf_LookupAsync H b1 [0x62, 0x63] v1)) (H [0x61] AND 63) \<and>
     sbf_reads_set b1 (snd (sbf_Load b1 ''bloom'' v1)) (H [0x61] AND 63) \<and>
     sbf_reads_set b1 (snd (sbf_Write b1 ''bloom'' v1)) (H [0x61] AND 63) \<and>
     bf_Insert H b2 [0x61] w2 = (Return None, v2) \<and>
     bf_reads_set b2 v2 (H [0x61] AND 63) \<and>
     bf_reads_set b2 (snd (bf_Insert H b2 [0x62, 0x63] v2)) (H [0x61] AND 63) \<and>
     bf_reads_set b2 (snd (bf_InsertAsync H b2 [0x62, 0x63] v2)) (H [0x61] AND 63) \<and>
     bf_reads_set b2 (snd (bf_Lookup H b2 [0x62, 0x63] v2)) (H [0x61] AND 63) \<and>
     bf_reads_set b2 (snd (bf_LookupAsync H b2 [0x62, 0x63] v2)) (H [0x61] AND 63) \<and>
     bf_reads_set b2 (snd (bf_Load b2 ''bloom'' v2)) (H [0x61] AND 63) \<and>
     bf_reads_set b2 (snd (bf_Write b2 ''bloom'' v2)) (H [0x61] AND 63) \<and>
     nsbf_Insert H b3 [0x61] w3 = (Return None, v3) \<and>
     nsbf_reads_set b3 v3 (H [0x61] AND 63) \<and>
     nsbf_reads_set b3 (snd (nsbf_Insert H b3 [0x62, 0x63] v3)) (H [0x61] AND 63) \<and>
     nsbf_reads_set b3 (snd (nsbf_InsertAsync H b3 [0x62, 0x63] v3)) (H [0x61] AND 63) \<and>
     nsbf_reads_set b3 (snd (nsbf_Lookup H b3 [0x62, 0x63] v3)) (H [0x61] AND 63) \<and>
     nsbf_reads_set b3 (snd (nsbf_LookupAsync H b3 [0x62, 0x63] v3)) (H [0x61] AND 63) \<and>
     nsbf_reads_set b3 (snd (nsbf_Load b3 ''bloom'' v3)) (H [0x61] AND 63) \<and>
     nsbf_reads_set b3 (snd (nsbf_Write b3 ''bloom'' v3)) (H [0x61] AND 63) \<and>
     nbf_Insert H b4 [0x61] w4 = (Return None, v4) \<and>
     nbf_reads_set b4 v4 (H [0x61] AND 63) \<and>
     nbf_reads_set b4 (snd (nbf_Insert H b4 [0x62, 0x63] v4)) (H [0x61] AND 63) \<and>
     nbf_reads_set b4 (snd (nbf_InsertAsync H b4 [0x62, 0x63] v4)) (H [0x61] AND 63) \<and>
     nbf_reads_set b4 (snd (nbf_Lookup H b4 [0x62, 0x63] v4)) (H [0x61] AND 63) \<and>
     nbf_reads_set b4 (snd (nbf_LookupAsync H b4 [0x62, 0x63] v4)) (H [0x61] AND 63) \<and>
     nbf_reads_set b4 (snd (nbf_Load b4 ''bloom'' v4)) (H [0x61] AND 63) \<and>
     nbf_reads_set b4 (snd (nbf_Write b4 ''bloom'' v4)) (H [0x61] AND 63)"
proof
  fix H :: "byte list \<Rightarrow> uint64"
  obtain b1 w1 where nb1: "NewStripedBloomFilter 64 2 1 empty_world = (Return (Inr b1), w1)"
    and sb1: "sbf_size b1 = 64" and hb1: "sbf_hf b1 = 2"
    using New_sbf_64 by simp
  have valb1: "sbf_valid b1 w1" using nb1 by (rule New_sbf_valid)
  obtain v1 where ib1: "sbf_Insert H b1 [0x61] w1 = (Return None, v1)" and valv1: "sbf_valid b1 v1"
    and rb1: "sbf_reads_set b1 v1 (H [0x61] AND 63)"
    using sbf_Insert_ok [OF valb1, of "[0x61]" H] by (auto simp: sb1 hb1)
  obtain b2 w2 where nb2: "NewBloomFilter 64 2 empty_world = (Return (Inr b2), w2)"
    and sb2: "bf_size b2 = 64" and hb2: "bf_hf b2 = 2"
    using New_bf_64 by simp
  have valb2: "bf_valid b2 w2" using nb2 by (rule New_bf_valid)
  obtain v2 where ib2: "bf_Insert H b2 [0x61] w2 = (Return None, v2)" and valv2: "bf_valid b2 v2"
    and rb2: "bf_reads_set b2 v2 (H [0x61] AND 63)"
    using bf_Insert_ok [OF valb2, of "[0x61]" H] by (auto simp: sb2 hb2)
  obtain b3 w3 where nb3: "NewNaiveStripedBloomFilter 64 2 1 empty_world = (Return (Inr b3), w3)"
    and sb3: "nsbf_size b3 = 64" and hb3: "nsbf_hf b3 = 2"
    using New_nsbf_64 by simp
  have valb3: "nsbf_valid b3 w3" using nb3 by (rule New_nsbf_valid)
  obtain v3 where ib3: "nsbf_Insert H b3 [0x61] w3 = (Return None, v3)" and valv3: "nsbf_valid b3 v3"
    and rb3: "nsbf_reads_set b3 v3 (H [0x61] AND 63)"
    using nsbf_Insert_ok [OF valb3, of "[0x61]" H] by (auto simp: sb3 hb3)
  obtain b4 w4 where nb4: "NewNaiveBloomFilter 64 2 empty_world = (Return (Inr b4), w4)"
    and sb4: "nbf_size b4 = 64" and hb4: "nbf_hf b4 = 2"
    using New_nbf_64 by simp
  have valb4: "nbf_valid b4 w4" using nb4 by (rule New_nbf_valid)
  obtain v4 where ib4: "nbf_Insert H b4 [0x61] w4 = (Return None, v4)" and valv4: "nbf_valid b4 v4"
    and rb4: "nbf_reads_set b4 v4 (H [0x61] AND 63)"
    using nbf_Insert_ok [OF valb4, of "[0x61]" H] by (auto simp: sb4 hb4)
  show "\<exists>b1 w1 v1 b2 w2 v2 b3 w3 v3 b4 w4 v4.
     NewStripedBloomFilter 64 2 1 empty_world = (Return (Inr b1), w1) \<and>
     NewBloomFilter 64 2 empty_world = (Return (Inr b2), w2) \<and>
     NewNaiveStripedBloomFilter 64 2 1 empty_world = (Return (Inr b3), w3) \<and>
     NewNaiveBloomFilter 64 2 empty_world = (Return (Inr b4), w4) \<and>
     \<not> sbf_reads_set b1 w1 7 \<and>
     \<not> bf_reads_set b2 w2 7 \<and>
     \<not> nsbf_reads_set b3 w3 7 \<and>
     \<not> nbf_reads_set b4 w4 7 \<and>
     sbf_Insert H b1 [0x61] w1 = (Return None, v1) \<and>
     sbf_reads_set b1 v1 (H [0x61] AND 63) \<and>
     sbf_reads_set b1 (snd (sbf_Insert H b1 [0x62, 0x63] v1)) (H [0x61] AND 63) \<and>
     sbf_reads_set b1 (snd (sbf_InsertAsync H b1 [0x62, 0x63] v1)) (H [0x61] AND 63) \<and>
     sbf_reads_set b1 (snd (sbf_Lookup H b1 [0x62, 0x63] v1)) (H [0x61] AND 63) \<and>
     sbf_reads_set b1 (snd (sbf_LookupAsync H b1 [0x62, 0x63] v1)) (H [0x61] AND 63) \<and>
     sbf_reads_set b1 (snd (sbf_Load b1 ''bloom'' v1)) (H [0x61] AND 63) \<and>
     sbf_reads_set b1 (snd (sbf_Write b1 ''bloom'' v1)) (H [0x61] AND 63) \<and>
     bf_Insert H b2 [0x61] w2 = (Return None, v2) \<and>
     bf_reads_set b2 v2 (H [0x61] AND 63) \<and>
     bf_reads_set b2 (snd (bf_Insert H b2 [0x62, 0x63] v2)) (H [0x61] AND 63) \<and>
     bf_reads_set b2 (snd (bf_InsertAsync H b2 [0x62, 0x63] v2)) (H [0x61] AND 63) \<and>
     bf_reads_set b2 (snd (bf_Lookup H b2 [0x62, 0x63] v2)) (H [0x61] AND 63) \<and>
     bf_reads_set b2 (snd (bf_LookupAsync H b2 [0x62, 0x63] v2)) (H [0x61] AND 63) \<and>
     bf_reads_set b2 (snd (bf_Load b2 ''bloom'' v2)) (H [0x61] AND 63) \<and>
     bf_reads_set b2 (snd (bf_Write b2 ''bloom'' v2)) (H [0x61] AND 63) \<and>
     nsbf_Insert H b3 [0x61] w3 = (Return None, v3) \<and>
     nsbf_reads_set b3 v3 (H [0x61] AND 63) \<and>
     nsbf_reads_set b3 (snd (nsbf_Insert H b3 [0x62, 0x63] v3)) (H [0x61] AND 63) \<and>
     nsbf_reads_set b3 (snd (nsbf_InsertAsync H b3 [0x62, 0x63] v3)) (H [0x61] AND 63) \<and>
     nsbf_reads_set b3 (snd (nsbf_Lookup H b3 [0x62, 0x63] v3)) (H [0x61] AND 63) \<and>
     nsbf_reads_set b3 (snd (nsbf_LookupAsync H b3 [0x62, 0x63] v3)) (H [0x61] AND 63) \<and>
     nsbf_reads_set b3 (snd (nsbf_Load b3 ''bloom'' v3)) (H [0x61] AND 63) \<and>
     nsbf_reads_set b3 (snd (nsbf_Write b3 ''bloom'' v3)) (H [0x61] AND 63) \<and>
     nbf_Insert H b4 [0x61] w4 = (Return None, v4) \<and>
     nbf_reads_set b4 v4 (H [0x61] AND 63) \<and>
     nbf_reads_set b4 (snd (nbf_Insert H b4 [0x62, 0x63] v4)) (H [0x61] AND 63) \<and>
     nbf_reads_set b4 (snd (nbf_InsertAsync H b4 [0x62, 0x63] v4)) (H [0x61] AND 63) \<and>
     nbf_reads_set b4 (snd (nbf_Lookup H b4 [0x62, 0x63] v4)) (H [0x61] AND 63) \<and>
     nbf_reads_set b4 (snd (nbf_LookupAsync H b4 [0x62, 0x63] v4)) (H [0x61] AND 63) \<and>
     nbf_reads_set b4 (snd (nbf_Load b4 ''bloom'' v4)) (H [0x61] AND 63) \<and>
     nbf_reads_set b4 (snd (nbf_Write b4 ''bloom'' v4)) (H [0x61] AND 63)"
    using set_positions_stay_set [OF valv1 valv2 valv3 valv4,
            of 64 2 1 empty_world 7 empty_world "H [0x61] AND 63" H "[0x62, 0x63]" "''bloom''"]
          nb1 nb2 nb3 nb4 ib1 ib2 ib3 ib4 rb1 rb2 rb3 rb4
    by blast
qed

section \<open>C9: the empty key\<close>

text \<open>
  C9 says that Insert, InsertAsync, Lookup and LookupAsync return a value or an error
  for every key, the empty key included. With at least one hash, \<open>hashEntry\<close> reads the
  byte at index \<open>-1\<close> of the empty key and panics, before any position is touched, in
  all sixteen methods.
\<close>

theorem empty_key_panics:
  assumes "0 < sbf_hf b1" and "0 < bf_hf b2" and "0 < nsbf_hf b3" and "0 < nbf_hf b4"
  shows "sbf_Insert H b1 [] w1 = (Panics IndexOutOfRange, w1) \<and>
         sbf_InsertAsync H b1 [] w1 = (Panics IndexOutOfRange, w1) \<and>
         sbf_Lookup H b1 [] w1 = (Panics IndexOutOfRange, w1) \<and>
         sbf_LookupAsync H b1 [] w1 = (Panics IndexOutOfRange, w1) \<and>
         bf_Insert H b2 [] w2 = (Panics IndexOutOfRange, w2) \<and>
         bf_InsertAsync H b2 [] w2 = (Panics IndexOutOfRange, w2) \<and>
         bf_Lookup H b2 [] w2 = (Panics IndexOutOfRange, w2) \<and>
         bf_LookupAsync H b2 [] w2 = (Panics IndexOutOfRange, w2) \<and>
         nsbf_Insert H b3 [] w3 = (Panics IndexOutOfRange, w3) \<and>
         nsbf_InsertAsync H b3 [] w3 = (Panics IndexOutOfRange, w3) \<and>
         nsbf_Lookup H b3 [] w3 = (Panics IndexOutOfRange, w3) \<and>
         nsbf_LookupAsync H b3 [] w3 = (Panics IndexOutOfRange, w3) \<and>
         nbf_Insert H b4 [] w4 = (Panics IndexOutOfRange, w4) \<and>
         nbf_InsertAsync H b4 [] w4 = (Panics IndexOutOfRange, w4) \<and>
         nbf_Lookup H b4 [] w4 = (Panics IndexOutOfRange, w4) \<and>
         nbf_LookupAsync H b4 [] w4 = (Panics IndexOutOfRange, w4)"
  using assms
  by (simp add: hashEntry_empty
        sbf_Insert_def sbf_InsertAsync_def sbf_Lookup_def sbf_LookupAsync_def
        bf_Insert_def bf_InsertAsync_def bf_Lookup_def bf_LookupAsync_def
        nsbf_Insert_def nsbf_InsertAsync_def nsbf_Lookup_def nsbf_LookupAsync_def
        nbf_Insert_def nbf_InsertAsync_def nbf_Lookup_def nbf_LookupAsync_def)

theorem empty_key_panics_witness:
  "\<forall>H. \<exists>b1 w1 b2 w2 b3 w3 b4 w4.
     NewStripedBloomFilter 64 2 1 empty_world = (Return (Inr b1), w1) \<and>
     NewBloomFilter 64 2 empty_world = (Return (Inr b2), w2) \<and>
     NewNaiveStripedBloomFilter 64 2 1 empty_world = (Return (Inr b3), w3) \<and>
     NewNaiveBloomFilter 64 2 empty_world = (Return (Inr b4), w4) \<and>
     sbf_Insert H b1 [] w1 = (Panics IndexOutOfRange, w1) \<and>
     sbf_InsertAsync H b1 [] w1 = (Panics IndexOutOfRange, w1) \<and>
     sbf_Lookup H b1 [] w1 = (Panics IndexOutOfRange, w1) \<and>
     sbf_LookupAsync H b1 [] w1 = (Panics IndexOutOfRange, w1) \<and>
     bf_Insert H b2 [] w2 = (Panics IndexOutOfRange, w2) \<and>
     bf_InsertAsync H b2 [] w2 = (Panics IndexOutOfRange, w2) \<and>
     bf_Lookup H b2 [] w2 = (Panics IndexOutOfRange, w2) \<and>
     bf_LookupAsync H b2 [] w2 = (Panics IndexOutOfRange, w2) \<and>
     nsbf_Insert H b3 [] w3 = (Panics IndexOutOfRange, w3) \<and>
     nsbf_InsertAsync H b3 [] w3 = (Panics IndexOutOfRange, w3) \<and>
     nsbf_Lookup H b3 [] w3 = (Panics IndexOutOfRange, w3) \<and>
     nsbf_LookupAsync H b3 [] w3 = (Panics IndexOutOfRange, w3) \<and>
     nbf_Insert H b4 [] w4 = (Panics IndexOutOfRange, w4) \<and>
     nbf_InsertAsync H b4 [] w4 = (Panics IndexOutOfRange, w4) \<and>
     nbf_Lookup H b4 [] w4 = (Panics IndexOutOfRange, w4) \<and>
     nbf_LookupAsync H b4 [] w4 = (Panics IndexOutOfRange, w4)"
proof
  fix H :: "byte list \<Rightarrow> uint64"
  obtain b1 w1 where n1: "NewStripedBloomFilter 64 2 1 empty_world = (Return (Inr b1), w1)"
    and h1: "0 < sbf_hf b1" using New_sbf_64 by simp
  obtain b2 w2 where n2: "NewBloomFilter 64 2 empty_world = (Return (Inr b2), w2)"
    and h2: "0 < bf_hf b2" using New_bf_64 by simp
  obtain b3 w3 where n3: "NewNaiveStripedBloomFilter 64 2 1 empty_world = (Return (Inr b3), w3)"
    and h3: "0 < nsbf_hf b3" using New_nsbf_64 by simp
  obtain b4 w4 where n4: "NewNaiveBloomFilter 64 2 empty_world = (Return (Inr b4), w4)"
    and h4: "0 < nbf_hf b4" using New_nbf_64 by simp
  show "\<exists>b1 w1 b2 w2 b3 w3 b4 w4.
     NewStripedBloomFilter 64 2 1 empty_world = (Return (Inr b1), w1) \<and>
     NewBloomFilter 64 2 empty_world = (Return (Inr b2), w2) \<and>
     NewNaiveStripedBloomFilter 64 2 1 empty_world = (Return (Inr b3), w3) \<and>
     NewNaiveBloomFilter 64 2 empty_world = (Return (Inr b4), w4) \<and>
     sbf_Insert H b1 [] w1 = (Panics IndexOutOfRange, w1) \<and>
     sbf_InsertAsync H b1 [] w1 = (Panics IndexOutOfRange, w1) \<and>
     sbf_Lookup H b1 [] w1 = (Panics IndexOutOfRange, w1) \<and>
     sbf_LookupAsync H b1 [] w1 = (Panics IndexOutOfRange, w1) \<and>
     bf_Insert H b2 [] w2 = (Panics IndexOutOfRange, w2) \<and>
     bf_InsertAsync H b2 [] w2 = (Panics IndexOutOfRange, w2) \<and>
     bf_Lookup H b2 [] w2 = (Panics IndexOutOfRange, w2) \<and>
     bf_LookupAsync H b2 [] w2 = (Panics IndexOutOfRange, w2) \<and>
     nsbf_Insert H b3 [] w3 = (Panics IndexOutOfRange, w3) \<and>
     nsbf_InsertAsync H b3 [] w3 = (Panics IndexOutOfRange, w3) \<and>
     nsbf_Lookup H b3 [] w3 = (Panics IndexOutOfRange, w3) \<and>
     nsbf_LookupAsync H b3 [] w3 = (Panics IndexOutOfRange, w3) \<and>
     nbf_Insert H b4 [] w4 = (Panics IndexOutOfRange, w4) \<and>
     nbf_InsertAsync H b4 [] w4 = (Panics IndexOutOfRange, w4) \<and>
     nbf_Lookup H b4 [] w4 = (Panics IndexOutOfRange, w4) \<and>
     nbf_LookupAsync H b4 [] w4 = (Panics IndexOutOfRange, w4)"
    using empty_key_panics [OF h1 h2 h3 h4, of H w1 w2 w3 w4] n1 n2 n3 n4 by blast
qed

section \<open>C10: Write of the packed filters\<close>

text \<open>
  C10 says that Write of a validly constructed packed filter reads only elements of the
  backing array. The loop runs \<open>i\<close> up to \<open>size\<close>, the array has \<open>size/64\<close> words: for
  every valid packed filter whose size fits an \<open>int\<close>, and every path that can be
  opened, Write panics at index \<open>size/64\<close>, after the file was created empty.
\<close>

theorem packed_Write_panics:
  assumes "sbf_valid b1 w1" and "bf_valid b2 w2"
    and "0 \<le> sint (sbf_size b1)" and "0 \<le> sint (bf_size b2)"
    and "\<not> locked w1 f" and "\<not> locked w2 f"
  shows "sbf_Write b1 f w1 = (Panics IndexOutOfRange, w1\<lparr>files := (files w1)(f \<mapsto> [])\<rparr>) \<and>
         bf_Write b2 f w2 = (Panics IndexOutOfRange, w2\<lparr>files := (files w2)(f \<mapsto> [])\<rparr>)"
proof -
  have a: "packed_Write_loop (heap w1 (sbf_bv b1)) (nat (sint (sbf_size b1))) 0 [] = Panics IndexOutOfRange"
    using assms(1) by (intro packed_Write_reads_too_far assms(3)) (simp_all add: sbf_valid_def)
  have b: "packed_Write_loop (heap w2 (bf_bv b2)) (nat (sint (bf_size b2))) 0 [] = Panics IndexOutOfRange"
    using assms(2) by (intro packed_Write_reads_too_far assms(4)) (simp_all add: bf_valid_def)
  show ?thesis using a b assms(5,6) by (simp add: sbf_Write_def bf_Write_def)
qed

theorem packed_Write_panics_witness:
  "\<exists>b1 w1 b2 w2.
     NewStripedBloomFilter 64 2 1 empty_world = (Return (Inr b1), w1) \<and>
     NewBloomFilter 64 2 empty_world = (Return (Inr b2), w2) \<and>
     sbf_Write b1 ''bloom'' w1 = (Panics IndexOutOfRange, w1\<lparr>files := (files w1)(''bloom'' \<mapsto> [])\<rparr>) \<and>
     bf_Write b2 ''bloom'' w2 = (Panics IndexOutOfRange, w2\<lparr>files := (files w2)(''bloom'' \<mapsto> [])\<rparr>)"
proof -
  obtain b1 w1 where n1: "NewStripedBloomFilter 64 2 1 empty_world = (Return (Inr b1), w1)"
    and s1: "0 \<le> sint (sbf_size b1)" and l1: "\<not> locked w1 ''bloom''"
    using New_sbf_64 by (simp add: empty_world_def)
  obtain b2 w2 where n2: "NewBloomFilter 64 2 empty_world = (Return (Inr b2), w2)"
    and s2: "0 \<le> sint (bf_size b2)" and l2: "\<not> locked w2 ''bloom''"
    using New_bf_64 by (simp add: empty_world_def)
  show ?thesis
    using packed_Write_panics [OF New_sbf_valid [OF n1] New_bf_valid [OF n2] s1 s2 l1 l2] n1 n2
    by blast
qed

end
